theory Spec2Isabelle
  imports Main "HOL-Library.Multiset" "HOL-Library.List_Lexorder" "HOL-Library.Product_Lexorder"
begin

section \<open>Sliding puzzle states and moves\<close>

text \<open>
  The notebook keeps the board size in the global \<^verbatim>\<open>PUZZLE_DIM\<close>; here it is the
  parameter \<open>n\<close> of every function that reads it. A puzzle state is a
  \<^verbatim>\<open>PUZZLE_DIM\<close> by \<^verbatim>\<open>PUZZLE_DIM\<close> integer array; it is modelled by the list of its
  cells in row-major order, so that \<^verbatim>\<open>state[x, y]\<close> is \<open>state ! (x * n + y)\<close> and
  \<^verbatim>\<open>state.flatten()\<close> is the list itself.
\<close>

type_synonym state = "int list"

type_synonym pos = "nat \<times> nat"

datatype Action = Action (pos1: pos) (pos2: pos)

datatype error = IndexError | KeyError | ValueError

text \<open>A well-formed state holds every value of \<open>0..n\<^sup>2-1\<close> exactly once.\<close>

definition valid_state :: "nat \<Rightarrow> state \<Rightarrow> bool" where
  "valid_state n s = (mset s = mset (map int [0..<n * n]))"

text \<open>\<^verbatim>\<open>np.argwhere(state == 0)\<close> lists the blank cells in row-major order.\<close>

fun argwhere_zero :: "state \<Rightarrow> nat list" where
  "argwhere_zero [] = []"
| "argwhere_zero (v # vs) =
     (if v = 0 then 0 # map Suc (argwhere_zero vs) else map Suc (argwhere_zero vs))"

definition available_actions :: "nat \<Rightarrow> state \<Rightarrow> error + Action list" where
  "available_actions n state =
     (case argwhere_zero state of
        [] \<Rightarrow> Inl IndexError
      | i # _ \<Rightarrow>
          (let x = i div n; y = i mod n in
           Inr ((if x > 0 then [Action (x, y) (x - 1, y)] else [])
              @ (if x < n - 1 then [Action (x, y) (x + 1, y)] else [])
              @ (if y > 0 then [Action (x, y) (x, y - 1)] else [])
              @ (if y < n - 1 then [Action (x, y) (x, y + 1)] else []))))"

text \<open>
  \<^verbatim>\<open>do_action\<close> copies the array and exchanges the two cells of the copy. An index
  outside the array raises \<^verbatim>\<open>IndexError\<close>.
\<close>

definition flat_index :: "nat \<Rightarrow> pos \<Rightarrow> nat" where
  "flat_index n p = fst p * n + snd p"

definition in_bounds :: "nat \<Rightarrow> state \<Rightarrow> pos \<Rightarrow> bool" where
  "in_bounds n state p = (fst p < n \<and> snd p < n \<and> flat_index n p < length state)"

definition do_action :: "nat \<Rightarrow> state \<Rightarrow> Action \<Rightarrow> error + state" where
  "do_action n state action =
     (if in_bounds n state (pos1 action) \<and> in_bounds n state (pos2 action) then
        (let new_state = state;
             i1 = flat_index n (pos1 action);
             i2 = flat_index n (pos2 action)
         in Inr (new_state[i1 := new_state ! i2, i2 := new_state ! i1]))
      else Inl IndexError)"

text \<open>
  The same function over a store of array objects (an address is an index into the store):
  \<^verbatim>\<open>state.copy()\<close> allocates a new array, and the two assignments write into the new
  array only.
\<close>

type_synonym store = "state list"

definition do_action_store :: "nat \<Rightarrow> store \<Rightarrow> nat \<Rightarrow> Action \<Rightarrow> error + (store \<times> nat)" where
  "do_action_store n st a action =
     (if a < length st then
        (let new_addr = length st;
             st1 = st @ [st ! a]
         in if in_bounds n (st1 ! new_addr) (pos1 action) \<and> in_bounds n (st1 ! new_addr) (pos2 action) then
              (let i1 = flat_index n (pos1 action);
                   i2 = flat_index n (pos2 action);
                   v1 = (st1 ! new_addr) ! i1;
                   v2 = (st1 ! new_addr) ! i2;
                   st2 = st1[new_addr := (st1 ! new_addr)[i1 := v2]];
                   st3 = st2[new_addr := (st2 ! new_addr)[i2 := v1]]
               in Inr (st3, new_addr))
            else Inl IndexError)
      else Inl KeyError)"

section \<open>Heuristic and solvability test\<close>

definition manhattan_distance :: "nat \<Rightarrow> state \<Rightarrow> int" where
  "manhattan_distance n state =
     (\<Sum>x\<leftarrow>[0..<n]. \<Sum>y\<leftarrow>[0..<n].
        (let v = state ! (x * n + y) in
         if v \<noteq> 0 then \<bar>int x - (v - 1) div int n\<bar> + \<bar>int y - (v - 1) mod int n\<bar> else 0))"

definition inversions :: "state \<Rightarrow> nat" where
  "inversions flat_state =
     (\<Sum>i\<leftarrow>[0..<length flat_state].
        length (filter (\<lambda>j. flat_state ! i \<noteq> 0 \<and> flat_state ! j \<noteq> 0 \<and> flat_state ! i > flat_state ! j)
                  [i + 1..<length flat_state]))"

definition is_solvable :: "state \<Rightarrow> bool" where
  "is_solvable state = (inversions state mod 2 = 0)"

definition goal_state :: "nat \<Rightarrow> state" where
  "goal_state n = map int [1..<n * n] @ [0]"

section \<open>Frontier\<close>

text \<open>
  The search keys every dictionary, set and frontier entry by \<^verbatim>\<open>state.tobytes()\<close> and
  decodes a popped key with \<^verbatim>\<open>np.frombuffer(..., dtype=int)\<close>. The encoding (eight
  little-endian bytes per 64-bit cell, row-major) is one-to-one on arrays of 64-bit cells and the
  decoding is its inverse, so the model uses the list of cells itself as the key and goes
  through the encoding only where the source compares two keys as byte strings: in the
  ordering of frontier entries.
\<close>

definition int64_bytes :: "int \<Rightarrow> nat list" where
  "int64_bytes v = map (\<lambda>i. nat ((v mod 2 ^ 64) div 256 ^ i mod 256)) [0..<8]"

definition tobytes :: "state \<Rightarrow> nat list" where
  "tobytes state = concat (map int64_bytes state)"

fun bytes_less :: "nat list \<Rightarrow> nat list \<Rightarrow> bool" where
  "bytes_less [] [] = False"
| "bytes_less [] (b # bs) = True"
| "bytes_less (a # as) [] = False"
| "bytes_less (a # as) (b # bs) = (a < b \<or> (a = b \<and> bytes_less as bs))"

type_synonym entry = "int \<times> state"

text \<open>Python's \<^verbatim>\<open><\<close> on the tuples \<^verbatim>\<open>(f_score, key)\<close>.\<close>

definition entry_less :: "entry \<Rightarrow> entry \<Rightarrow> bool" where
  "entry_less e1 e2 =
     (fst e1 < fst e2 \<or> (fst e1 = fst e2 \<and> bytes_less (tobytes (snd e1)) (tobytes (snd e2))))"

text \<open>
  \<^verbatim>\<open>heapq\<close> keeps a binary heap in a list; \<^verbatim>\<open>heappop\<close> returns a least entry and
  removes one occurrence of it. The order on entries is total and two entries that compare
  equal are the same pair, so the entry returned does not depend on the heap's layout: the
  model keeps the entries in a list and \<open>heappop\<close> takes the least one out.
  \<^verbatim>\<open>heappop\<close> of an empty heap raises \<^verbatim>\<open>IndexError\<close>.
\<close>

definition heappush :: "entry list \<Rightarrow> entry \<Rightarrow> entry list" where
  "heappush h e = h @ [e]"

fun least_entry :: "entry \<Rightarrow> entry list \<Rightarrow> entry" where
  "least_entry m [] = m"
| "least_entry m (e # es) = least_entry (if entry_less e m then e else m) es"

fun heappop :: "entry list \<Rightarrow> error + (entry \<times> entry list)" where
  "heappop [] = Inl IndexError"
| "heappop (e # es) = (let m = least_entry e es in Inr (m, remove1 m (e # es)))"

section \<open>Bidirectional search\<close>

type_synonym direction =
  "entry list \<times> (state \<rightharpoonup> state option) \<times> (state \<rightharpoonup> nat)"

text \<open>\<^verbatim>\<open>a_star_search\<close> ignores its arguments \<^verbatim>\<open>goal_state\<close> and \<^verbatim>\<open>forward\<close>.\<close>

definition a_star_search :: "nat \<Rightarrow> state \<Rightarrow> state \<Rightarrow> bool \<Rightarrow> direction" where
  "a_star_search n initial_state goal forward =
     (heappush [] (manhattan_distance n initial_state, initial_state),
      [initial_state \<mapsto> None],
      [initial_state \<mapsto> 0])"

record engine =
  open_forward :: "entry list"
  came_from_forward :: "state \<rightharpoonup> state option"
  g_score_forward :: "state \<rightharpoonup> nat"
  open_backward :: "entry list"
  came_from_backward :: "state \<rightharpoonup> state option"
  g_score_backward :: "state \<rightharpoonup> nat"
  explored_forward :: "state set"
  explored_backward :: "state set"
  nodes_evaluated :: nat
  meeting_node :: "state option"

text \<open>
  The body of the loop over the actions of the popped state. It is the same text in the
  forward and in the backward half of the source, up to the names of the frontier and of the
  two dictionaries, so it is modelled once, over the frontier, the dictionaries and the
  counter it updates. In both halves the priority is the tentative score plus
  \<^verbatim>\<open>manhattan_distance(neighbor)\<close>.
\<close>

type_synonym relax_state =
  "entry list \<times> (state \<rightharpoonup> state option) \<times> (state \<rightharpoonup> nat) \<times> nat"

definition relax :: "nat \<Rightarrow> state \<Rightarrow> Action \<Rightarrow> relax_state \<Rightarrow> error + relax_state" where
  "relax n current action d =
     (case d of (open_set, came_from, g_score, evaluated) \<Rightarrow>
        (case do_action n current action of
           Inl e \<Rightarrow> Inl e
         | Inr neighbor \<Rightarrow>
             (case g_score current of
                None \<Rightarrow> Inl KeyError
              | Some g_current \<Rightarrow>
                  (let tentative_g = g_current + 1 in
                   if g_score neighbor = None \<or> tentative_g < the (g_score neighbor) then
                     (let f_score = int tentative_g + manhattan_distance n neighbor in
                      Inr (heappush open_set (f_score, neighbor),
                           came_from(neighbor \<mapsto> Some current),
                           g_score(neighbor \<mapsto> tentative_g),
                           evaluated + 1))
                   else Inr d))))"

fun for_each :: "('a \<Rightarrow> 's \<Rightarrow> error + 's) \<Rightarrow> 'a list \<Rightarrow> 's \<Rightarrow> error + 's" where
  "for_each f [] s = Inr s"
| "for_each f (a # as) s = (case f a s of Inl e \<Rightarrow> Inl e | Inr s' \<Rightarrow> for_each f as s')"

definition expand :: "nat \<Rightarrow> state \<Rightarrow> relax_state \<Rightarrow> error + relax_state" where
  "expand n current d =
     (case available_actions n current of
        Inl e \<Rightarrow> Inl e
      | Inr actions \<Rightarrow> for_each (relax n current) actions d)"

text \<open>
  One half of the loop body. The result is an error, or the new engine state with a flag
  that tells whether the \<^verbatim>\<open>break\<close> was taken. \<^verbatim>\<open>reshape\<close> raises \<^verbatim>\<open>ValueError\<close>
  when the popped key does not have \<open>n * n\<close> cells.
\<close>

definition forward_step :: "nat \<Rightarrow> engine \<Rightarrow> error + (bool \<times> engine)" where
  "forward_step n st =
     (if open_forward st = [] then Inr (False, st)
      else case heappop (open_forward st) of
        Inl e \<Rightarrow> Inl e
      | Inr ((f_fwd, current_fwd), rest) \<Rightarrow>
          if length current_fwd \<noteq> n * n then Inl ValueError
          else
            (let st1 = st\<lparr>open_forward := rest,
                          explored_forward := insert current_fwd (explored_forward st)\<rparr> in
             if current_fwd \<in> explored_backward st1 then
               Inr (True, st1\<lparr>meeting_node := Some current_fwd\<rparr>)
             else
               (case expand n current_fwd
                       (open_forward st1, came_from_forward st1, g_score_forward st1,
                        nodes_evaluated st1) of
                  Inl e \<Rightarrow> Inl e
                | Inr (open_set, came_from, g_score, evaluated) \<Rightarrow>
                    Inr (False, st1\<lparr>open_forward := open_set,
                                     came_from_forward := came_from,
                                     g_score_forward := g_score,
                                     nodes_evaluated := evaluated\<rparr>))))"

definition backward_step :: "nat \<Rightarrow> engine \<Rightarrow> error + (bool \<times> engine)" where
  "backward_step n st =
     (if open_backward st = [] then Inr (False, st)
      else case heappop (open_backward st) of
        Inl e \<Rightarrow> Inl e
      | Inr ((f_bwd, current_bwd), rest) \<Rightarrow>
          if length current_bwd \<noteq> n * n then Inl ValueError
          else
            (let st1 = st\<lparr>open_backward := rest,
                          explored_backward := insert current_bwd (explored_backward st)\<rparr> in
             if current_bwd \<in> explored_forward st1 then
               Inr (True, st1\<lparr>meeting_node := Some current_bwd\<rparr>)
             else
               (case expand n current_bwd
                       (open_backward st1, came_from_backward st1, g_score_backward st1,
                        nodes_evaluated st1) of
                  Inl e \<Rightarrow> Inl e
                | Inr (open_set, came_from, g_score, evaluated) \<Rightarrow>
                    Inr (False, st1\<lparr>open_backward := open_set,
                                     came_from_backward := came_from,
                                     g_score_backward := g_score,
                                     nodes_evaluated := evaluated\<rparr>))))"

definition iteration :: "nat \<Rightarrow> engine \<Rightarrow> error + (bool \<times> engine)" where
  "iteration n st =
     (case forward_step n st of
        Inl e \<Rightarrow> Inl e
      | Inr (broke, st1) \<Rightarrow> if broke then Inr (True, st1) else backward_step n st1)"

text \<open>
  The \<^verbatim>\<open>while\<close> loop. Its termination is not evident from its text, so it is a partial
  function: \<open>None\<close> stands for a loop that never ends.
\<close>

partial_function (option) main_loop :: "nat \<Rightarrow> engine \<Rightarrow> (error + engine) option" where
  "main_loop n st =
     (if open_forward st \<noteq> [] \<and> open_backward st \<noteq> [] then
        (case iteration n st of
           Inl e \<Rightarrow> Some (Inl e)
         | Inr (broke, st1) \<Rightarrow> if broke then Some (Inr st1) else main_loop n st1)
      else Some (Inr st))"

text \<open>\<^verbatim>\<open>dict.get\<close>: a missing key reads as \<^verbatim>\<open>None\<close>.\<close>

definition dict_get :: "(state \<rightharpoonup> state option) \<Rightarrow> state \<Rightarrow> state option" where
  "dict_get d k = (case d k of None \<Rightarrow> None | Some v \<Rightarrow> v)"

text \<open>The two \<^verbatim>\<open>while node is not None\<close> loops of the path reconstruction.\<close>

partial_function (option) walk ::
  "(state \<rightharpoonup> state option) \<Rightarrow> state option \<Rightarrow> state list \<Rightarrow> state list option" where
  "walk came_from node path =
     (case node of
        None \<Rightarrow> Some path
      | Some k \<Rightarrow> walk came_from (dict_get came_from k) (path @ [k]))"

definition initial_engine :: "nat \<Rightarrow> state \<Rightarrow> engine" where
  "initial_engine n initial_state =
     (case a_star_search n initial_state (goal_state n) True of
        (open_f, came_f, g_f) \<Rightarrow>
     (case a_star_search n (goal_state n) initial_state False of
        (open_b, came_b, g_b) \<Rightarrow>
        \<lparr>open_forward = open_f, came_from_forward = came_f, g_score_forward = g_f,
         open_backward = open_b, came_from_backward = came_b, g_score_backward = g_b,
         explored_forward = {}, explored_backward = {},
         nodes_evaluated = 0, meeting_node = None\<rparr>))"

text \<open>
  \<^verbatim>\<open>bidirectional_a_star\<close>. Building the goal array raises \<^verbatim>\<open>ValueError\<close> when the
  list of \<open>n\<^sup>2 - 1\<close> values and the blank cannot be reshaped to \<open>n\<close> by \<open>n\<close> (that is for
  \<open>n = 0\<close>). An initial array that does not have \<open>n * n\<close> cells makes the source raise as
  well (in \<^verbatim>\<open>manhattan_distance\<close> or at the first \<^verbatim>\<open>reshape\<close>); the model reports it
  before the search starts.
\<close>

definition bidirectional_a_star ::
  "nat \<Rightarrow> state \<Rightarrow> (error + (state list option \<times> nat)) option" where
  "bidirectional_a_star n initial_state =
     (if length (goal_state n) \<noteq> n * n \<or> length initial_state \<noteq> n * n then Some (Inl ValueError)
      else case main_loop n (initial_engine n initial_state) of
        None \<Rightarrow> None
      | Some (Inl e) \<Rightarrow> Some (Inl e)
      | Some (Inr st) \<Rightarrow>
          (case meeting_node st of
             None \<Rightarrow> Some (Inr (None, nodes_evaluated st))
           | Some m \<Rightarrow>
               (case walk (came_from_forward st) (Some m) [] of
                  None \<Rightarrow> None
                | Some path_forward \<Rightarrow>
                    (case walk (came_from_backward st) (dict_get (came_from_backward st) m) [] of
                       None \<Rightarrow> None
                     | Some path_backward \<Rightarrow>
                         Some (Inr (Some (rev path_forward @ path_backward),
                                    nodes_evaluated st))))))"

declare main_loop.simps [code]

declare walk.simps [code]

section \<open>Notions used in the statements\<close>

subsection \<open>Legal moves\<close>

text \<open>
  Two cells are adjacent when they lie on the board and are neighbours in a row or in a column.
  A state \<open>t\<close> is one legal move from \<open>s\<close> when some action of \<open>available_actions\<close>
  turns \<open>s\<close> into \<open>t\<close>.
\<close>

definition adjacent :: "nat \<Rightarrow> pos \<Rightarrow> pos \<Rightarrow> bool" where
  "adjacent n p q =
     (fst p < n \<and> snd p < n \<and> fst q < n \<and> snd q < n \<and>
      ((fst p = fst q \<and> (snd p = Suc (snd q) \<or> snd q = Suc (snd p))) \<or>
       (snd p = snd q \<and> (fst p = Suc (fst q) \<or> fst q = Suc (fst p)))))"

definition legal_move :: "nat \<Rightarrow> state \<Rightarrow> state \<Rightarrow> bool" where
  "legal_move n s t =
     (case available_actions n s of
        Inl e \<Rightarrow> False
      | Inr actions \<Rightarrow> \<exists>a \<in> set actions. do_action n s a = Inr t)"

text \<open>The summand of \<open>manhattan_distance\<close> for the cell in row \<open>x\<close> and column \<open>y\<close>.\<close>

definition tile_cost :: "nat \<Rightarrow> state \<Rightarrow> nat \<Rightarrow> nat \<Rightarrow> int" where
  "tile_cost n state x y =
     (let v = state ! (x * n + y) in
      if v \<noteq> 0 then \<bar>int x - (v - 1) div int n\<bar> + \<bar>int y - (v - 1) mod int n\<bar> else 0)"

subsection \<open>The Manhattan distance to a target, as the spec words it\<close>

text \<open>
  This definition does not come from the source. It follows the wording of the spec for a
  heuristic with a target: for every tile \<open>v\<close> of the state at \<open>(x, y)\<close>, take its position
  \<open>(tx, ty)\<close> in the target and add \<open>|x - tx| + |y - ty|\<close>; the blank adds nothing. It is
  used only to state what the spec says about the backward step.
\<close>

fun index_of :: "int \<Rightarrow> state \<Rightarrow> nat" where
  "index_of v [] = 0"
| "index_of v (w # ws) = (if w = v then 0 else Suc (index_of v ws))"

definition spec_manhattan_distance :: "nat \<Rightarrow> state \<Rightarrow> state \<Rightarrow> int" where
  "spec_manhattan_distance n state target =
     (\<Sum>x\<leftarrow>[0..<n]. \<Sum>y\<leftarrow>[0..<n].
        (let v = state ! (x * n + y) in
         if v \<noteq> 0 then \<bar>int x - int (index_of v target div n)\<bar> +
                          \<bar>int y - int (index_of v target mod n)\<bar>
         else 0))"

subsection \<open>Invariants of the search\<close>

text \<open>
  The invariant of one direction with root \<open>root\<close>: the score map is finite and has the
  keys of the predecessor map, every key is a well-formed state, every frontier entry is a
  key, the root has score 0 and predecessor \<open>None\<close> and is the only key without a
  predecessor, and the predecessor of any other key has a smaller score and is one legal
  move before it.
\<close>

definition dir_inv ::
  "nat \<Rightarrow> state \<Rightarrow> entry list \<Rightarrow> (state \<rightharpoonup> state option) \<Rightarrow> (state \<rightharpoonup> nat) \<Rightarrow> bool" where
  "dir_inv n root open_set came_from g_score =
     (finite (dom g_score) \<and> dom came_from = dom g_score \<and>
      (\<forall>k \<in> dom g_score. valid_state n k) \<and>
      (\<forall>e \<in> set open_set. snd e \<in> dom g_score) \<and>
      g_score root = Some 0 \<and> came_from root = Some None \<and>
      (\<forall>k. came_from k = Some None \<longrightarrow> k = root) \<and>
      (\<forall>k p. came_from k = Some (Some p) \<longrightarrow>
         (\<exists>gp gk. g_score p = Some gp \<and> g_score k = Some gk \<and> gp < gk \<and> legal_move n p k)))"

text \<open>The invariant of the engine: both directions, the explored sets and the meeting state.\<close>

definition engine_inv :: "nat \<Rightarrow> state \<Rightarrow> engine \<Rightarrow> bool" where
  "engine_inv n start st =
     (0 < n \<and> valid_state n start \<and>
      dir_inv n start (open_forward st) (came_from_forward st) (g_score_forward st) \<and>
      dir_inv n (goal_state n) (open_backward st) (came_from_backward st) (g_score_backward st) \<and>
      explored_forward st \<subseteq> dom (g_score_forward st) \<and>
      explored_backward st \<subseteq> dom (g_score_backward st) \<and>
      (\<forall>m. meeting_node st = Some m \<longrightarrow> m \<in> explored_forward st \<and> m \<in> explored_backward st))"

text \<open>
  The effect of one pass of the loop over the actions, for the neighbor the action leads to.
\<close>

definition relaxed :: "nat \<Rightarrow> state \<Rightarrow> nat \<Rightarrow> state \<Rightarrow> relax_state \<Rightarrow> relax_state" where
  "relaxed n current g_current neighbor d =
     (case d of (open_set, came_from, g_score, evaluated) \<Rightarrow>
        if g_score neighbor = None \<or> g_current + 1 < the (g_score neighbor) then
          (open_set @ [(int (g_current + 1) + manhattan_distance n neighbor, neighbor)],
           came_from(neighbor \<mapsto> Some current),
           g_score(neighbor \<mapsto> g_current + 1),
           evaluated + 1)
        else d)"

text \<open>
  The measure that decreases in every iteration of the main loop, taken on the forward
  direction: the number of well-formed states without a score and the sum of the scores, in
  lexicographic order, and then the length of the frontier.
\<close>

definition g_measure :: "nat \<Rightarrow> (state \<rightharpoonup> nat) \<Rightarrow> nat \<times> nat" where
  "g_measure n g_score =
     (card ({s. valid_state n s} - dom g_score), \<Sum>k \<in> dom g_score. the (g_score k))"

definition fwd_measure :: "nat \<Rightarrow> engine \<Rightarrow> (nat \<times> nat) \<times> nat" where
  "fwd_measure n st = (g_measure n (g_score_forward st), length (open_forward st))"

definition loop_rel :: "nat \<Rightarrow> (engine \<times> engine) set" where
  "loop_rel n = inv_image ((less_than <*lex*> less_than) <*lex*> less_than) (fwd_measure n)"

text \<open>What the expansion of a state establishes, and what the whole search returns.\<close>

definition expand_post ::
  "nat \<Rightarrow> state \<Rightarrow> state \<Rightarrow> nat \<Rightarrow> relax_state \<Rightarrow> relax_state \<Rightarrow> bool" where
  "expand_post n root current g_current d0 d =
     (dir_inv n root (fst d) (fst (snd d)) (fst (snd (snd d))) \<and>
      fst (snd (snd d)) current = Some g_current \<and>
      dom (fst (snd (snd d0))) \<subseteq> dom (fst (snd (snd d))) \<and>
      (d = d0 \<or>
       (g_measure n (fst (snd (snd d))), g_measure n (fst (snd (snd d0))))
          \<in> less_than <*lex*> less_than))"

definition search_post :: "nat \<Rightarrow> state \<Rightarrow> engine \<Rightarrow> state list option \<times> nat \<Rightarrow> bool" where
  "search_post n start st res =
     (snd res = nodes_evaluated st \<and>
      (meeting_node st = None \<longrightarrow> fst res = None \<and> (open_forward st = [] \<or> open_backward st = [])) \<and>
      (meeting_node st \<noteq> None \<longrightarrow>
         (\<exists>path. fst res = Some path \<and> path \<noteq> [] \<and> hd path = start \<and>
                 last path = goal_state n \<and> successively (legal_move n) path)))"

subsection \<open>The engine states that the loop reaches\<close>

text \<open>
  \<open>Head\<close> is the head of the \<^verbatim>\<open>while\<close> loop, \<open>Mid\<close> the point between the forward and the
  backward half of its body, \<open>Done\<close> the point after the loop (left by a \<^verbatim>\<open>break\<close> or by
  the loop condition). \<open>after_iterations n k\<close> runs \<open>k\<close> complete iterations that do not
  break.
\<close>

datatype phase = Head | Mid | Done

inductive reachable :: "nat \<Rightarrow> state \<Rightarrow> phase \<Rightarrow> engine \<Rightarrow> bool" for n start where
  reachable_init: "reachable n start Head (initial_engine n start)"
| reachable_forward:
    "reachable n start Head st \<Longrightarrow> open_forward st \<noteq> [] \<Longrightarrow> open_backward st \<noteq> [] \<Longrightarrow>
     forward_step n st = Inr (broke, st1) \<Longrightarrow>
     reachable n start (if broke then Done else Mid) st1"
| reachable_backward:
    "reachable n start Mid st1 \<Longrightarrow> backward_step n st1 = Inr (broke, st2) \<Longrightarrow>
     reachable n start (if broke then Done else Head) st2"
| reachable_exit:
    "reachable n start Head st \<Longrightarrow> open_forward st = [] \<or> open_backward st = [] \<Longrightarrow>
     reachable n start Done st"

fun after_iterations :: "nat \<Rightarrow> nat \<Rightarrow> engine \<Rightarrow> engine option" where
  "after_iterations n 0 st = Some st"
| "after_iterations n (Suc k) st =
     (if open_forward st \<noteq> [] \<and> open_backward st \<noteq> [] then
        (case iteration n st of
           Inl e \<Rightarrow> None
         | Inr (broke, st1) \<Rightarrow> if broke then None else after_iterations n k st1)
      else None)"

subsection \<open>Stale entries\<close>

text \<open>
  The key by which \<open>entry_less\<close> compares. An entry is stale when its priority is not the
  current score of its state plus the heuristic of the state. The invariant behind lazy
  deletion: every frontier entry is at least as large as the current priority of its state,
  and every scored state outside \<open>pending\<close> either has its current entry in the frontier or
  is explored with all its neighbors scored at most one above it.
\<close>

definition entry_key :: "entry \<Rightarrow> int \<times> nat list" where
  "entry_key e = (fst e, tobytes (snd e))"

definition stale :: "nat \<Rightarrow> (state \<rightharpoonup> nat) \<Rightarrow> entry \<Rightarrow> bool" where
  "stale n g_score e =
     (case g_score (snd e) of
        None \<Rightarrow> True
      | Some g \<Rightarrow> fst e \<noteq> int g + manhattan_distance n (snd e))"

definition lazy_mid ::
  "nat \<Rightarrow> state set \<Rightarrow> entry list \<Rightarrow> (state \<rightharpoonup> nat) \<Rightarrow> state set \<Rightarrow> bool" where
  "lazy_mid n pending open_set g_score explored =
     ((\<forall>e \<in> set open_set. \<exists>gk. g_score (snd e) = Some gk \<and>
          int gk + manhattan_distance n (snd e) \<le> fst e) \<and>
      (\<forall>k gk. k \<notin> pending \<longrightarrow> g_score k = Some gk \<longrightarrow>
          (int gk + manhattan_distance n k, k) \<in> set open_set \<or>
          (k \<in> explored \<and>
           (\<forall>nb. legal_move n k nb \<longrightarrow> (\<exists>gn. g_score nb = Some gn \<and> gn \<le> gk + 1)))))"

definition lazy_engine :: "nat \<Rightarrow> engine \<Rightarrow> bool" where
  "lazy_engine n st =
     (lazy_mid n {} (open_forward st) (g_score_forward st) (explored_forward st) \<and>
      lazy_mid n {} (open_backward st) (g_score_backward st) (explored_backward st) \<and>
      explored_forward st \<inter> explored_backward st = {})"

subsection \<open>Runs that leave the layout of the heaps open\<close>

text \<open>
  A second, relational reading of the main loop, for the statement that the search is
  deterministic. It takes from \<^verbatim>\<open>heapq\<close> only its contract: \<^verbatim>\<open>heappop\<close> returns an entry
  that no entry of the heap is less than and leaves the other entries, and after pushes the
  heap holds the old and the new entries, in an arrangement that is not fixed (\<open>pops\<close>, and
  the \<open>layout\<close> of the two \<open>expand\<close> rules). The rest of a half of the loop body is that of
  \<open>forward_step\<close> and \<open>backward_step\<close>: the length test of \<^verbatim>\<open>reshape\<close>, the explored set,
  the meeting test with its \<^verbatim>\<open>break\<close>, and \<open>expand\<close>. \<open>runs n st fin\<close> says that the
  \<^verbatim>\<open>while\<close> loop started in \<open>st\<close> can end in \<open>fin\<close>; \<open>reconstruct\<close> is the code after the loop,
  and \<open>search_run\<close> the whole of \<^verbatim>\<open>bidirectional_a_star\<close> as such a run. Two engine states
  are the same but for the layout when they agree on everything except the order in which
  the frontiers list their entries.

  The dictionaries and the sets of the source are read by key lookup and membership test and
  written by assignment and \<^verbatim>\<open>add\<close> only; the search never iterates over one, so the order
  in which a hash table keeps its keys is not visible to it. Maps and sets have exactly these
  operations. The board size is the parameter \<open>n\<close>, the same for the runs compared.
\<close>

definition pops :: "entry list \<Rightarrow> entry \<Rightarrow> entry list \<Rightarrow> bool" where
  "pops h e rest =
     (e \<in> set h \<and> (\<forall>x \<in> set h. \<not> entry_less x e) \<and> mset rest = mset h - {#e#})"

inductive forward_half :: "nat \<Rightarrow> engine \<Rightarrow> bool \<Rightarrow> engine \<Rightarrow> bool" for n st where
  forward_meet:
    "pops (open_forward st) (f, k) rest \<Longrightarrow> length k = n * n \<Longrightarrow>
     k \<in> explored_backward st \<Longrightarrow>
     forward_half n st True
       (st\<lparr>open_forward := rest,
           explored_forward := insert k (explored_forward st),
           meeting_node := Some k\<rparr>)"
| forward_expand:
    "pops (open_forward st) (f, k) rest \<Longrightarrow> length k = n * n \<Longrightarrow>
     k \<notin> explored_backward st \<Longrightarrow>
     expand n k (rest, came_from_forward st, g_score_forward st, nodes_evaluated st) =
       Inr (open_set, came_from, g_score, evaluated) \<Longrightarrow>
     mset layout = mset open_set \<Longrightarrow>
     forward_half n st False
       (st\<lparr>open_forward := layout,
           explored_forward := insert k (explored_forward st),
           came_from_forward := came_from, g_score_forward := g_score,
           nodes_evaluated := evaluated\<rparr>)"

inductive backward_half :: "nat \<Rightarrow> engine \<Rightarrow> bool \<Rightarrow> engine \<Rightarrow> bool" for n st where
  backward_meet:
    "pops (open_backward st) (f, k) rest \<Longrightarrow> length k = n * n \<Longrightarrow>
     k \<in> explored_forward st \<Longrightarrow>
     backward_half n st True
       (st\<lparr>open_backward := rest,
           explored_backward := insert k (explored_backward st),
           meeting_node := Some k\<rparr>)"
| backward_expand:
    "pops (open_backward st) (f, k) rest \<Longrightarrow> length k = n * n \<Longrightarrow>
     k \<notin> explored_forward st \<Longrightarrow>
     expand n k (rest, came_from_backward st, g_score_backward st, nodes_evaluated st) =
       Inr (open_set, came_from, g_score, evaluated) \<Longrightarrow>
     mset layout = mset open_set \<Longrightarrow>
     backward_half n st False
       (st\<lparr>open_backward := layout,
           explored_backward := insert k (explored_backward st),
           came_from_backward := came_from, g_score_backward := g_score,
           nodes_evaluated := evaluated\<rparr>)"

inductive runs :: "nat \<Rightarrow> engine \<Rightarrow> engine \<Rightarrow> bool" for n where
  runs_exit: "open_forward st = [] \<or> open_backward st = [] \<Longrightarrow> runs n st st"
| runs_break_forward:
    "open_forward st \<noteq> [] \<Longrightarrow> open_backward st \<noteq> [] \<Longrightarrow>
     forward_half n st True st1 \<Longrightarrow> runs n st st1"
| runs_break_backward:
    "open_forward st \<noteq> [] \<Longrightarrow> open_backward st \<noteq> [] \<Longrightarrow>
     forward_half n st False st1 \<Longrightarrow> backward_half n st1 True st2 \<Longrightarrow> runs n st st2"
| runs_continue:
    "open_forward st \<noteq> [] \<Longrightarrow> open_backward st \<noteq> [] \<Longrightarrow>
     forward_half n st False st1 \<Longrightarrow> backward_half n st1 False st2 \<Longrightarrow>
     runs n st2 st3 \<Longrightarrow> runs n st st3"

definition reconstruct :: "engine \<Rightarrow> (state list option \<times> nat) option" where
  "reconstruct st =
     (case meeting_node st of
        None \<Rightarrow> Some (None, nodes_evaluated st)
      | Some m \<Rightarrow>
          (case walk (came_from_forward st) (Some m) [] of
             None \<Rightarrow> None
           | Some path_forward \<Rightarrow>
               (case walk (came_from_backward st) (dict_get (came_from_backward st) m) [] of
                  None \<Rightarrow> None
                | Some path_backward \<Rightarrow>
                    Some (Some (rev path_forward @ path_backward), nodes_evaluated st))))"

definition search_run :: "nat \<Rightarrow> state \<Rightarrow> state list option \<times> nat \<Rightarrow> bool" where
  "search_run n initial_state res =
     (length (goal_state n) = n * n \<and> length initial_state = n * n \<and>
      (\<exists>st. runs n (initial_engine n initial_state) st \<and> reconstruct st = Some res))"

definition same_but_layout :: "engine \<Rightarrow> engine \<Rightarrow> bool" where
  "same_but_layout st st' =
     (mset (open_forward st') = mset (open_forward st) \<and>
      mset (open_backward st') = mset (open_backward st) \<and>
      came_from_forward st' = came_from_forward st \<and>
      g_score_forward st' = g_score_forward st \<and>
      came_from_backward st' = came_from_backward st \<and>
      g_score_backward st' = g_score_backward st \<and>
      explored_forward st' = explored_forward st \<and>
      explored_backward st' = explored_backward st \<and>
      nodes_evaluated st' = nodes_evaluated st \<and>
      meeting_node st' = meeting_node st)"

section \<open>Lemmas\<close>

lemma valid_state_length: "valid_state n s \<Longrightarrow> length s = n * n"
  unfolding valid_state_def by (metis length_map length_upt minus_nat.diff_0 size_mset)

lemma valid_state_distinct: "valid_state n s \<Longrightarrow> distinct s"
proof -
  assume "valid_state n s"
  then have "mset s = mset (map int [0..<n * n])" by (simp add: valid_state_def)
  moreover have "distinct (map int [0..<n * n])" by (simp add: distinct_map)
  ultimately show ?thesis by (metis mset_eq_imp_distinct_iff)
qed

lemma valid_state_set: "valid_state n s \<Longrightarrow> set s = int ` {0..<n * n}"
proof -
  assume "valid_state n s"
  then have "mset s = mset (map int [0..<n * n])" by (simp add: valid_state_def)
  then have "set s = set (map int [0..<n * n])" by (rule mset_eq_setD)
  then show ?thesis by simp
qed

lemma valid_state_range:
  "valid_state n s \<Longrightarrow> i < n * n \<Longrightarrow> 0 \<le> s ! i \<and> s ! i < int (n * n)"
proof -
  assume v: "valid_state n s" and i: "i < n * n"
  then have "s ! i \<in> set s" by (simp add: valid_state_length)
  then have "s ! i \<in> int ` {0..<n * n}" using v by (simp add: valid_state_set)
  then show ?thesis by (auto simp flip: of_nat_mult)
qed

lemma argwhere_zero_mem: "i \<in> set (argwhere_zero s) \<longleftrightarrow> i < length s \<and> s ! i = 0"
proof (induction s arbitrary: i)
  case Nil
  then show ?case by simp
next
  case (Cons v vs)
  show ?case
  proof (cases i)
    case 0
    then show ?thesis by auto
  next
    case (Suc k)
    then show ?thesis using Cons.IH[of k] by auto
  qed
qed

lemma argwhere_zero_unique:
  assumes "distinct s" "j < length s" "s ! j = 0"
  shows "argwhere_zero s = [j]"
  using assms
proof (induction s arbitrary: j)
  case Nil
  then show ?case by simp
next
  case (Cons v vs)
  show ?case
  proof (cases j)
    case 0
    with Cons.prems have v0: "v = 0" and "0 \<notin> set vs" by auto
    have "argwhere_zero vs = []"
    proof (cases "argwhere_zero vs")
      case Nil
      then show ?thesis .
    next
      case (Cons a as)
      then have "a \<in> set (argwhere_zero vs)" by simp
      then have "a < length vs \<and> vs ! a = 0" by (simp add: argwhere_zero_mem)
      then have "0 \<in> set vs" by (metis nth_mem)
      with \<open>0 \<notin> set vs\<close> show ?thesis by simp
    qed
    with v0 0 show ?thesis by simp
  next
    case (Suc k)
    with Cons.prems have k: "k < length vs" "vs ! k = 0" "distinct vs" by auto
    then have "0 \<in> set vs" by (metis nth_mem)
    with Cons.prems have "v \<noteq> 0" by auto
    with Cons.IH[OF k(3) k(1) k(2)] Suc show ?thesis by simp
  qed
qed

lemma valid_state_blank:
  assumes "valid_state n s" "0 < n"
  shows "\<exists>j. j < n * n \<and> s ! j = 0 \<and> argwhere_zero s = [j]"
proof -
  have "(0::int) \<in> int ` {0..<n * n}" using assms(2) by (auto simp: image_iff)
  then have "0 \<in> set s" using assms(1) by (simp add: valid_state_set)
  then obtain j where j: "j < length s" "s ! j = 0" by (auto simp: in_set_conv_nth)
  then have "argwhere_zero s = [j]"
    using argwhere_zero_unique valid_state_distinct[OF assms(1)] by blast
  with j show ?thesis using valid_state_length[OF assms(1)] by auto
qed

lemma adjacent_sym: "adjacent n p q \<Longrightarrow> adjacent n q p"
  by (auto simp: adjacent_def)

lemma adjacent_neq: "adjacent n p q \<Longrightarrow> p \<noteq> q"
  by (auto simp: adjacent_def)

lemma flat_index_divmod: "0 < n \<Longrightarrow> flat_index n (j div n, j mod n) = j"
  by (simp add: flat_index_def)

lemma flat_index_less: "fst p < n \<Longrightarrow> snd p < n \<Longrightarrow> flat_index n p < n * n"
proof -
  assume a: "fst p < n" "snd p < n"
  then have "fst p * n + snd p < fst p * n + n" by simp
  also have "\<dots> = Suc (fst p) * n" by simp
  also have "\<dots> \<le> n * n" using a(1) by (metis Suc_leI mult_le_mono1)
  finally show ?thesis by (simp add: flat_index_def)
qed

lemma divmod_flat_index:
  "snd p < n \<Longrightarrow> (flat_index n p div n, flat_index n p mod n) = p"
  by (cases p) (simp add: flat_index_def)

lemma available_actions_set:
  assumes "argwhere_zero s = [j]" "0 < n" "j < n * n"
  shows "\<exists>actions. available_actions n s = Inr actions \<and>
           set actions = {a. pos1 a = (j div n, j mod n) \<and> adjacent n (pos1 a) (pos2 a)}"
proof -
  let ?x = "j div n" and ?y = "j mod n"
  have x: "?x < n" using assms(2,3) by (simp add: less_mult_imp_div_less)
  have y: "?y < n" using assms(2) by simp
  let ?acts = "(if ?x > 0 then [Action (?x, ?y) (?x - 1, ?y)] else [])
              @ (if ?x < n - 1 then [Action (?x, ?y) (?x + 1, ?y)] else [])
              @ (if ?y > 0 then [Action (?x, ?y) (?x, ?y - 1)] else [])
              @ (if ?y < n - 1 then [Action (?x, ?y) (?x, ?y + 1)] else [])"
  have eq: "available_actions n s = Inr ?acts"
    using assms(1) by (simp add: available_actions_def Let_def)
  have "set ?acts = {a. pos1 a = (?x, ?y) \<and> adjacent n (pos1 a) (pos2 a)}" (is "?L = ?R")
  proof
    show "?L \<subseteq> ?R" using x y by (auto simp: adjacent_def less_imp_diff_less split: if_splits)
  next
    show "?R \<subseteq> ?L"
    proof
      fix a assume "a \<in> ?R"
      then obtain q where a: "a = Action (?x, ?y) q" and adj: "adjacent n (?x, ?y) q"
        by (cases a) auto
      obtain qx qy where q: "q = (qx, qy)" by (cases q)
      from adj q show "a \<in> ?L" unfolding a q adjacent_def by (auto split: if_splits)
    qed
  qed
  with eq show ?thesis by blast
qed

lemma do_action_adjacent:
  assumes "length s = n * n" "adjacent n (pos1 a) (pos2 a)"
  shows "do_action n s a =
           Inr (s[flat_index n (pos1 a) := s ! flat_index n (pos2 a),
                  flat_index n (pos2 a) := s ! flat_index n (pos1 a)])"
proof -
  from assms(2) have b: "fst (pos1 a) < n" "snd (pos1 a) < n" "fst (pos2 a) < n" "snd (pos2 a) < n"
    by (auto simp: adjacent_def)
  then have "in_bounds n s (pos1 a)" "in_bounds n s (pos2 a)"
    using assms(1) by (simp_all add: in_bounds_def flat_index_less)
  then show ?thesis by (simp add: do_action_def Let_def)
qed

lemma legal_move_char:
  assumes "valid_state n s" "0 < n" "j < n * n" "s ! j = 0"
  shows "legal_move n s t \<longleftrightarrow>
           (\<exists>k. k < n * n \<and> adjacent n (j div n, j mod n) (k div n, k mod n) \<and>
                t = s[j := s ! k, k := 0])"
proof -
  have len: "length s = n * n" by (rule valid_state_length[OF assms(1)])
  have aw: "argwhere_zero s = [j]"
    using argwhere_zero_unique[OF valid_state_distinct[OF assms(1)], of j] assms(3,4) len by simp
  obtain actions where acts: "available_actions n s = Inr actions"
    and set_acts: "set actions = {a. pos1 a = (j div n, j mod n) \<and> adjacent n (pos1 a) (pos2 a)}"
    using available_actions_set[OF aw assms(2,3)] by blast
  show ?thesis
  proof
    assume "legal_move n s t"
    then obtain a where a: "a \<in> set actions" "do_action n s a = Inr t"
      by (auto simp: legal_move_def acts)
    then have p1: "pos1 a = (j div n, j mod n)" and adj: "adjacent n (pos1 a) (pos2 a)"
      using set_acts by auto
    let ?k = "flat_index n (pos2 a)"
    have q: "fst (pos2 a) < n" "snd (pos2 a) < n" using adj by (auto simp: adjacent_def)
    have k: "?k < n * n" using q by (rule flat_index_less)
    have kd: "(?k div n, ?k mod n) = pos2 a" using q(2) by (rule divmod_flat_index)
    have fj: "flat_index n (pos1 a) = j" using p1 assms(2) by (simp add: flat_index_divmod)
    have "t = s[j := s ! ?k, ?k := 0]"
      using a(2) do_action_adjacent[OF len adj] fj assms(4) by simp
    with k kd adj p1 show "\<exists>k. k < n * n \<and> adjacent n (j div n, j mod n) (k div n, k mod n) \<and>
                t = s[j := s ! k, k := 0]" by auto
  next
    assume "\<exists>k. k < n * n \<and> adjacent n (j div n, j mod n) (k div n, k mod n) \<and>
                t = s[j := s ! k, k := 0]"
    then obtain k where k: "k < n * n" "adjacent n (j div n, j mod n) (k div n, k mod n)"
      "t = s[j := s ! k, k := 0]" by blast
    let ?a = "Action (j div n, j mod n) (k div n, k mod n)"
    have "?a \<in> set actions" using set_acts k(2) by simp
    moreover have "do_action n s ?a = Inr t"
      using do_action_adjacent[OF len, of ?a] k(2,3) assms(2,4) by (simp add: flat_index_divmod)
    ultimately show "legal_move n s t" by (auto simp: legal_move_def acts)
  qed
qed

lemma swap_blank_valid:
  assumes "valid_state n s" "j < n * n" "k < n * n" "s ! j = 0"
  shows "valid_state n (s[j := s ! k, k := 0])"
proof -
  have len: "length s = n * n" by (rule valid_state_length[OF assms(1)])
  have "mset (s[j := s ! k, k := s ! j]) = mset s"
    using assms(2,3) len by (simp add: mset_swap)
  then show ?thesis using assms(1,4) by (simp add: valid_state_def)
qed

lemma legal_move_valid:
  assumes "valid_state n s" "0 < n" "legal_move n s t"
  shows "valid_state n t"
proof -
  obtain j where j: "j < n * n" "s ! j = 0" using valid_state_blank[OF assms(1,2)] by blast
  from assms(3) legal_move_char[OF assms(1,2) j] obtain k where
    "k < n * n" "t = s[j := s ! k, k := 0]" by blast
  then show ?thesis using swap_blank_valid[OF assms(1) j(1) _ j(2)] by simp
qed

lemma legal_move_sym:
  assumes "valid_state n s" "0 < n" "legal_move n s t"
  shows "legal_move n t s"
proof -
  obtain j where j: "j < n * n" "s ! j = 0" using valid_state_blank[OF assms(1,2)] by blast
  from assms(3) legal_move_char[OF assms(1,2) j] obtain k where
    k: "k < n * n" "adjacent n (j div n, j mod n) (k div n, k mod n)" "t = s[j := s ! k, k := 0]"
    by blast
  have len: "length s = n * n" by (rule valid_state_length[OF assms(1)])
  have vt: "valid_state n t" by (rule legal_move_valid[OF assms])
  have jk: "j \<noteq> k" using adjacent_neq[OF k(2)] by auto
  have tk: "t ! k = 0" using k(1,3) len by simp
  have tj: "t ! j = s ! k" using k(3) j(1) len jk by simp
  have "s = t[k := t ! j, j := 0]"
    unfolding tj k(3) using j k(1) len jk
    by (intro nth_equalityI) (auto simp: nth_list_update)
  with legal_move_char[OF vt assms(2) k(1) tk, of s] adjacent_sym[OF k(2)] j(1)
  show ?thesis by blast
qed

lemma legal_move_neq:
  assumes "valid_state n s" "0 < n" "legal_move n s t"
  shows "t \<noteq> s"
proof -
  obtain j where j: "j < n * n" "s ! j = 0" using valid_state_blank[OF assms(1,2)] by blast
  from assms(3) legal_move_char[OF assms(1,2) j] obtain k where
    k: "k < n * n" "adjacent n (j div n, j mod n) (k div n, k mod n)" "t = s[j := s ! k, k := 0]"
    by blast
  have len: "length s = n * n" by (rule valid_state_length[OF assms(1)])
  have jk: "j \<noteq> k" using adjacent_neq[OF k(2)] by auto
  have "s ! k \<noteq> s ! j" using valid_state_distinct[OF assms(1)] jk j(1) k(1) len
    by (simp add: nth_eq_iff_index_eq)
  moreover have "t ! k = 0" using k(1,3) len by simp
  ultimately show ?thesis using j(2) by auto
qed

lemma manhattan_distance_tile_cost:
  "manhattan_distance n state = (\<Sum>x\<leftarrow>[0..<n]. \<Sum>y\<leftarrow>[0..<n]. tile_cost n state x y)"
  by (simp add: manhattan_distance_def tile_cost_def)

lemma tile_cost_nonneg: "0 \<le> tile_cost n state x y"
  by (simp add: tile_cost_def Let_def)

lemma manhattan_distance_nonneg: "0 \<le> manhattan_distance n state"
  unfolding manhattan_distance_tile_cost
  by (intro sum_list_nonneg) (auto intro!: sum_list_nonneg simp: tile_cost_nonneg)

lemma manhattan_distance_zero_tiles:
  "manhattan_distance n state = 0 \<longleftrightarrow> (\<forall>x<n. \<forall>y<n. tile_cost n state x y = 0)"
proof -
  have inner: "(\<Sum>y\<leftarrow>[0..<n]. tile_cost n state x y) = 0 \<longleftrightarrow> (\<forall>y<n. tile_cost n state x y = 0)" for x
    by (subst sum_list_nonneg_eq_0_iff) (auto simp: tile_cost_nonneg)
  have "manhattan_distance n state = 0 \<longleftrightarrow> (\<forall>x<n. (\<Sum>y\<leftarrow>[0..<n]. tile_cost n state x y) = 0)"
    unfolding manhattan_distance_tile_cost
    by (subst sum_list_nonneg_eq_0_iff) (auto intro!: sum_list_nonneg simp: tile_cost_nonneg)
  then show ?thesis by (simp add: inner)
qed

lemma tile_cost_zero_iff:
  assumes "0 < n" "y < n"
  shows "tile_cost n state x y = 0 \<longleftrightarrow>
           (state ! (x * n + y) = 0 \<or> state ! (x * n + y) = int (x * n + y) + 1)"
proof -
  let ?v = "state ! (x * n + y)"
  have "(?v - 1) div int n = int x \<and> (?v - 1) mod int n = int y \<longleftrightarrow> ?v - 1 = int (x * n + y)"
  proof
    assume a: "(?v - 1) div int n = int x \<and> (?v - 1) mod int n = int y"
    have "?v - 1 = (?v - 1) div int n * int n + (?v - 1) mod int n" by simp
    with a show "?v - 1 = int (x * n + y)" by simp
  next
    assume a: "?v - 1 = int (x * n + y)"
    have "int (x * n + y) div int n = int x" "int (x * n + y) mod int n = int y"
      using assms by (simp_all flip: zdiv_int zmod_int)
    with a show "(?v - 1) div int n = int x \<and> (?v - 1) mod int n = int y" by simp
  qed
  then show ?thesis by (auto simp: tile_cost_def Let_def)
qed

lemma goal_state_nth:
  assumes "0 < n" "i < n * n"
  shows "goal_state n ! i = (if i < n * n - 1 then int i + 1 else 0)"
  using assms by (auto simp: goal_state_def nth_append)

lemma goal_state_length: "0 < n \<Longrightarrow> length (goal_state n) = n * n"
  by (simp add: goal_state_def)

lemma manhattan_distance_cells:
  assumes "0 < n"
  shows "manhattan_distance n state = 0 \<longleftrightarrow>
           (\<forall>i<n * n. state ! i = 0 \<or> state ! i = int i + 1)"
proof
  assume "manhattan_distance n state = 0"
  then have z: "\<And>x y. x < n \<Longrightarrow> y < n \<Longrightarrow> tile_cost n state x y = 0"
    by (simp add: manhattan_distance_zero_tiles)
  show "\<forall>i<n * n. state ! i = 0 \<or> state ! i = int i + 1"
  proof (intro allI impI)
    fix i assume i: "i < n * n"
    have "i div n < n" using i assms by (simp add: less_mult_imp_div_less)
    moreover have "i mod n < n" using assms by simp
    ultimately have "tile_cost n state (i div n) (i mod n) = 0" by (rule z)
    then show "state ! i = 0 \<or> state ! i = int i + 1"
      using tile_cost_zero_iff[OF assms, of "i mod n" state "i div n"] assms by simp
  qed
next
  assume a: "\<forall>i<n * n. state ! i = 0 \<or> state ! i = int i + 1"
  have "tile_cost n state x y = 0" if "x < n" "y < n" for x y
  proof -
    have "x * n + y < n * n" using flat_index_less[of "(x, y)" n] that by (simp add: flat_index_def)
    with a have "state ! (x * n + y) = 0 \<or> state ! (x * n + y) = int (x * n + y) + 1" by blast
    then show ?thesis using tile_cost_zero_iff[OF assms that(2)] by blast
  qed
  then show "manhattan_distance n state = 0" by (simp add: manhattan_distance_zero_tiles)
qed

lemma goal_state_valid: "0 < n \<Longrightarrow> valid_state n (goal_state n)"
proof -
  assume n: "0 < n"
  have "[0..<n * n] = 0 # [1..<n * n]" using n by (simp add: upt_rec)
  then have "mset (map int [0..<n * n]) = mset (map int [1..<n * n] @ [0])" by simp
  then show ?thesis by (simp add: valid_state_def goal_state_def)
qed

lemma manhattan_distance_zero_goal:
  assumes "valid_state n s" "0 < n"
  shows "manhattan_distance n s = 0 \<longleftrightarrow> s = goal_state n"
proof
  assume "s = goal_state n"
  then have "\<forall>i<n * n. s ! i = 0 \<or> s ! i = int i + 1"
    using goal_state_nth[OF assms(2)] by simp
  then show "manhattan_distance n s = 0" by (simp add: manhattan_distance_cells[OF assms(2)])
next
  assume "manhattan_distance n s = 0"
  then have c: "\<And>i. i < n * n \<Longrightarrow> s ! i = 0 \<or> s ! i = int i + 1"
    by (simp add: manhattan_distance_cells[OF assms(2)])
  have len: "length s = n * n" by (rule valid_state_length[OF assms(1)])
  have pos: "0 < n * n" using assms(2) by simp
  have last0: "s ! (n * n - 1) = 0"
  proof (rule ccontr)
    assume "s ! (n * n - 1) \<noteq> 0"
    then have "s ! (n * n - 1) = int (n * n - 1) + 1" using c[of "n * n - 1"] pos by simp
    then have "s ! (n * n - 1) = int (n * n)" using pos by (simp add: of_nat_diff)
    moreover have "s ! (n * n - 1) < int (n * n)"
      using valid_state_range[OF assms(1), of "n * n - 1"] pos by simp
    ultimately show False by simp
  qed
  have rest: "s ! i = int i + 1" if "i < n * n - 1" for i
  proof -
    have "s ! i \<noteq> s ! (n * n - 1)"
      using valid_state_distinct[OF assms(1)] that len by (simp add: nth_eq_iff_index_eq)
    then show ?thesis using c[of i] that last0 by auto
  qed
  show "s = goal_state n"
  proof (rule nth_equalityI)
    show "length s = length (goal_state n)" by (simp add: len goal_state_length[OF assms(2)])
  next
    fix i assume "i < length s"
    then have i: "i < n * n" by (simp add: len)
    show "s ! i = goal_state n ! i"
    proof (cases "i < n * n - 1")
      case True
      then show ?thesis using rest goal_state_nth[OF assms(2) i] by simp
    next
      case False
      then have "i = n * n - 1" using i by simp
      then show ?thesis using last0 goal_state_nth[OF assms(2) i] by simp
    qed
  qed
qed

lemma do_action_store_pure:
  assumes "a < length st" "do_action n (st ! a) m = Inr s'"
  shows "do_action_store n st a m = Inr (st @ [s'], length st)"
proof -
  from assms(2) have b: "in_bounds n (st ! a) (pos1 m) \<and> in_bounds n (st ! a) (pos2 m)"
    by (auto simp: do_action_def split: if_splits)
  then have s': "s' = (st ! a)[flat_index n (pos1 m) := st ! a ! flat_index n (pos2 m),
                              flat_index n (pos2 m) := st ! a ! flat_index n (pos1 m)]"
    using assms(2) by (simp add: do_action_def Let_def)
  show ?thesis using assms(1) b unfolding s' by (simp add: do_action_store_def Let_def nth_append)
qed

lemma do_action_effect:
  assumes "valid_state n s" "0 < n" "available_actions n s = Inr actions" "m \<in> set actions"
  shows "\<exists>s' i j. do_action n s m = Inr s' \<and> valid_state n s' \<and> length s' = length s \<and>
           i \<noteq> j \<and> s ! i = 0 \<and> {k. k < length s \<and> s' ! k \<noteq> s ! k} = {i, j} \<and>
           argwhere_zero s' = [j] \<and>
           (\<forall>st a. a < length st \<and> st ! a = s \<longrightarrow>
              (\<exists>st'. do_action_store n st a m = Inr (st', length st) \<and> st' ! length st = s' \<and>
                     (\<forall>b<length st. st' ! b = st ! b)))"
proof -
  obtain i where i: "i < n * n" "s ! i = 0" using valid_state_blank[OF assms(1,2)] by blast
  have len: "length s = n * n" by (rule valid_state_length[OF assms(1)])
  have "\<exists>a \<in> set actions. do_action n s a = do_action n s m" using assms(4) by blast
  moreover obtain s' where s': "do_action n s m = Inr s'"
  proof -
    have aw: "argwhere_zero s = [i]"
      using argwhere_zero_unique[OF valid_state_distinct[OF assms(1)], of i] i len by simp
    from available_actions_set[OF aw assms(2) i(1)] assms(3,4)
    have "adjacent n (pos1 m) (pos2 m)" by auto
    from do_action_adjacent[OF len this] that show ?thesis by blast
  qed
  ultimately have lm: "legal_move n s s'" using assms(3) by (auto simp: legal_move_def)
  then obtain j where j: "j < n * n" "adjacent n (i div n, i mod n) (j div n, j mod n)"
    "s' = s[i := s ! j, j := 0]" using legal_move_char[OF assms(1,2) i] by blast
  have ij: "i \<noteq> j" using adjacent_neq[OF j(2)] by auto
  have v': "valid_state n s'" by (rule legal_move_valid[OF assms(1,2) lm])
  have sj: "s ! j \<noteq> 0"
    using valid_state_distinct[OF assms(1)] ij i j(1) len by (metis nth_eq_iff_index_eq)
  have diff: "{k. k < length s \<and> s' ! k \<noteq> s ! k} = {i, j}"
    unfolding j(3) using i j(1) ij sj len by (auto simp: nth_list_update)
  have blank': "argwhere_zero s' = [j]"
    using argwhere_zero_unique[OF valid_state_distinct[OF v'], of j] j(1,3) len by simp
  have store: "\<exists>st'. do_action_store n st a m = Inr (st', length st) \<and> st' ! length st = s' \<and>
                     (\<forall>b<length st. st' ! b = st ! b)" if "a < length st" "st ! a = s" for st a
    using do_action_store_pure[OF that(1), of n m s'] s' that(2) by (simp add: nth_append)
  have "length s' = length s" unfolding j(3) by simp
  with s' v' ij i(2) diff blank' store show ?thesis by blast
qed

lemma least_entry_mem: "least_entry m es \<in> set (m # es)"
  by (induction es arbitrary: m) auto

lemma heappop_nonempty:
  assumes "h \<noteq> []"
  shows "\<exists>e. heappop h = Inr (e, remove1 e h) \<and> e \<in> set h"
proof -
  from assms obtain x xs where h: "h = x # xs" by (cases h) auto
  have "least_entry x xs \<in> set (x # xs)" by (rule least_entry_mem)
  then show ?thesis unfolding h by (simp add: Let_def)
qed

lemma finite_valid_states: "finite {s. valid_state n s}"
proof -
  have "{s. valid_state n s} \<subseteq> {s. set s \<subseteq> int ` {0..<n * n} \<and> length s = n * n}"
    using valid_state_set valid_state_length by auto
  moreover have "finite {s. set s \<subseteq> int ` {0..<n * n} \<and> length s = n * n}"
    by (rule finite_lists_length_eq) simp
  ultimately show ?thesis by (rule finite_subset)
qed

lemma relax_eq:
  assumes "valid_state n current" "0 < n" "g_score current = Some g_current"
    "available_actions n current = Inr actions" "a \<in> set actions"
  shows "\<exists>neighbor. legal_move n current neighbor \<and>
           relax n current a (open_set, came_from, g_score, evaluated) =
             Inr (relaxed n current g_current neighbor (open_set, came_from, g_score, evaluated))"
proof -
  obtain s' where s': "do_action n current a = Inr s'"
    using do_action_effect[OF assms(1,2,4,5)] by blast
  then have "legal_move n current s'" using assms(4,5) by (auto simp: legal_move_def)
  moreover have "relax n current a (open_set, came_from, g_score, evaluated) =
             Inr (relaxed n current g_current s' (open_set, came_from, g_score, evaluated))"
    using s' assms(3) by (simp add: relax_def relaxed_def heappush_def Let_def)
  ultimately show ?thesis by blast
qed

lemma g_measure_decreases:
  assumes "finite (dom g)" "valid_state n nb" "g nb = None \<or> t < the (g nb)"
  shows "(g_measure n (g(nb \<mapsto> t)), g_measure n g) \<in> less_than <*lex*> less_than"
proof (cases "g nb")
  case None
  then have nb: "nb \<notin> dom g" by auto
  have "nb \<in> {s. valid_state n s} - dom g" using assms(2) nb by simp
  moreover have "finite ({s. valid_state n s} - dom g)" using finite_valid_states by simp
  ultimately have "card ({s. valid_state n s} - dom g - {nb}) < card ({s. valid_state n s} - dom g)"
    by (meson card_Diff1_less)
  moreover have "{s. valid_state n s} - dom (g(nb \<mapsto> t)) = {s. valid_state n s} - dom g - {nb}"
    by auto
  ultimately show ?thesis by (simp add: g_measure_def)
next
  case (Some old)
  then have lt: "t < old" using assms(3) by simp
  have nb: "nb \<in> dom g" using Some by auto
  then have d: "dom (g(nb \<mapsto> t)) = dom g" by auto
  have "(\<Sum>k \<in> dom g. the ((g(nb \<mapsto> t)) k)) = t + (\<Sum>k \<in> dom g - {nb}. the ((g(nb \<mapsto> t)) k))"
    using assms(1) nb by (simp add: sum.remove)
  also have "(\<Sum>k \<in> dom g - {nb}. the ((g(nb \<mapsto> t)) k)) = (\<Sum>k \<in> dom g - {nb}. the (g k))"
    by (intro sum.cong) auto
  finally have 1: "(\<Sum>k \<in> dom g. the ((g(nb \<mapsto> t)) k)) = t + (\<Sum>k \<in> dom g - {nb}. the (g k))" .
  have 2: "(\<Sum>k \<in> dom g. the (g k)) = old + (\<Sum>k \<in> dom g - {nb}. the (g k))"
    using assms(1) nb Some by (simp add: sum.remove)
  show ?thesis unfolding g_measure_def d 1 2 using lt by simp
qed

lemma dir_invI:
  assumes "finite (dom g_score)" "dom came_from = dom g_score"
    "\<And>k. k \<in> dom g_score \<Longrightarrow> valid_state n k"
    "\<And>e. e \<in> set open_set \<Longrightarrow> snd e \<in> dom g_score"
    "g_score root = Some 0" "came_from root = Some None"
    "\<And>k. came_from k = Some None \<Longrightarrow> k = root"
    "\<And>k p. came_from k = Some (Some p) \<Longrightarrow>
         \<exists>gp gk. g_score p = Some gp \<and> g_score k = Some gk \<and> gp < gk \<and> legal_move n p k"
  shows "dir_inv n root open_set came_from g_score"
  unfolding dir_inv_def using assms by blast

lemma dir_invD:
  assumes "dir_inv n root open_set came_from g_score"
  shows "finite (dom g_score)" "dom came_from = dom g_score"
    "\<And>k. k \<in> dom g_score \<Longrightarrow> valid_state n k"
    "\<And>e. e \<in> set open_set \<Longrightarrow> snd e \<in> dom g_score"
    "g_score root = Some 0" "came_from root = Some None"
    "\<And>k. came_from k = Some None \<Longrightarrow> k = root"
    "\<And>k p. came_from k = Some (Some p) \<Longrightarrow>
         \<exists>gp gk. g_score p = Some gp \<and> g_score k = Some gk \<and> gp < gk \<and> legal_move n p k"
  using assms unfolding dir_inv_def by blast+

lemma dir_inv_relaxed:
  assumes inv: "dir_inv n root open_set came_from g_score" and n: "0 < n"
    and cur: "g_score current = Some g_current"
    and lm: "legal_move n current neighbor"
    and upd: "g_score neighbor = None \<or> g_current + 1 < the (g_score neighbor)"
  shows "dir_inv n root (open_set @ [(f, neighbor)]) (came_from(neighbor \<mapsto> Some current))
           (g_score(neighbor \<mapsto> g_current + 1))"
proof (rule dir_invI)
  note D = dir_invD[OF inv]
  have vc: "valid_state n current" using D(3)[of current] cur by auto
  have vn: "valid_state n neighbor" by (rule legal_move_valid[OF vc n lm])
  have ne: "neighbor \<noteq> current" by (rule legal_move_neq[OF vc n lm])
  have nr: "neighbor \<noteq> root" using D(5) upd by auto
  show "finite (dom (g_score(neighbor \<mapsto> g_current + 1)))" using D(1) by simp
  show "dom (came_from(neighbor \<mapsto> Some current)) = dom (g_score(neighbor \<mapsto> g_current + 1))"
    using D(2) by simp
  show "valid_state n k" if "k \<in> dom (g_score(neighbor \<mapsto> g_current + 1))" for k
    using that D(3)[of k] vn by (cases "k = neighbor") auto
  show "snd e \<in> dom (g_score(neighbor \<mapsto> g_current + 1))"
    if "e \<in> set (open_set @ [(f, neighbor)])" for e
    using that D(4)[of e] by auto
  show "(g_score(neighbor \<mapsto> g_current + 1)) root = Some 0" using D(5) nr by simp
  show "(came_from(neighbor \<mapsto> Some current)) root = Some None" using D(6) nr by simp
  show "k = root" if "(came_from(neighbor \<mapsto> Some current)) k = Some None" for k
    using that D(7)[of k] by (cases "k = neighbor") auto
  show "\<exists>gp gk. (g_score(neighbor \<mapsto> g_current + 1)) p = Some gp \<and>
                  (g_score(neighbor \<mapsto> g_current + 1)) k = Some gk \<and> gp < gk \<and> legal_move n p k"
    if "(came_from(neighbor \<mapsto> Some current)) k = Some (Some p)" for k p
  proof (cases "k = neighbor")
    case True
    with that have "p = current" by simp
    with True cur ne lm show ?thesis by simp
  next
    case False
    with that have "came_from k = Some (Some p)" by simp
    from D(8)[OF this] obtain gp gk where g: "g_score p = Some gp" "g_score k = Some gk" "gp < gk"
      "legal_move n p k" by blast
    show ?thesis
    proof (cases "p = neighbor")
      case True
      with g(1) upd have "g_current + 1 < gp" by simp
      with True False g show ?thesis by simp
    next
      case pn: False
      with False g show ?thesis by simp
    qed
  qed
qed

lemma wf_loop_rel: "wf (loop_rel n)"
  unfolding loop_rel_def by (intro wf_inv_image wf_lex_prod wf_less_than)

lemma lex_pair_trans:
  "(x, y) \<in> less_than <*lex*> less_than \<Longrightarrow> (y, z) \<in> less_than <*lex*> less_than \<Longrightarrow>
   (x, z) \<in> less_than <*lex*> less_than"
  by (cases x; cases y; cases z) auto

lemma for_each_rule:
  assumes "P s" "\<And>a s. a \<in> set as \<Longrightarrow> P s \<Longrightarrow> \<exists>s'. f a s = Inr s' \<and> P s'"
  shows "\<exists>s'. for_each f as s = Inr s' \<and> P s'"
  using assms
proof (induction as arbitrary: s)
  case Nil
  then show ?case by simp
next
  case (Cons a as)
  from Cons.prems(2)[of a s] Cons.prems(1) obtain s1 where s1: "f a s = Inr s1" "P s1" by auto
  have "\<exists>s'. for_each f as s1 = Inr s' \<and> P s'"
    by (rule Cons.IH[OF s1(2)]) (use Cons.prems(2) in auto)
  with s1(1) show ?case by simp
qed

lemma dir_inv_subset:
  "dir_inv n root open_set came_from g_score \<Longrightarrow> set open_set' \<subseteq> set open_set \<Longrightarrow>
   dir_inv n root open_set' came_from g_score"
  unfolding dir_inv_def by blast

lemma relaxed_post:
  assumes "expand_post n root current g_current d0 d" "0 < n" "legal_move n current neighbor"
  shows "expand_post n root current g_current d0 (relaxed n current g_current neighbor d)"
proof -
  obtain op cf g c where d: "d = (op, cf, g, c)" by (cases d)
  from assms(1) have inv: "dir_inv n root op cf g" and cur: "g current = Some g_current"
    and sub: "dom (fst (snd (snd d0))) \<subseteq> dom g"
    and prog: "d = d0 \<or> (g_measure n g, g_measure n (fst (snd (snd d0)))) \<in> less_than <*lex*> less_than"
    by (simp_all add: expand_post_def d)
  show ?thesis
  proof (cases "g neighbor = None \<or> g_current + 1 < the (g neighbor)")
    case False
    then have "relaxed n current g_current neighbor d = d" by (simp add: relaxed_def d)
    with assms(1) show ?thesis by simp
  next
    case True
    let ?f = "int (g_current + 1) + manhattan_distance n neighbor"
    have r: "relaxed n current g_current neighbor d =
               (op @ [(?f, neighbor)], cf(neighbor \<mapsto> Some current), g(neighbor \<mapsto> g_current + 1), c + 1)"
      using True by (simp add: relaxed_def d)
    have vc: "valid_state n current" using dir_invD(3)[OF inv, of current] cur by auto
    have vn: "valid_state n neighbor" by (rule legal_move_valid[OF vc assms(2,3)])
    have ne: "neighbor \<noteq> current" by (rule legal_move_neq[OF vc assms(2,3)])
    have 1: "dir_inv n root (op @ [(?f, neighbor)]) (cf(neighbor \<mapsto> Some current))
               (g(neighbor \<mapsto> g_current + 1))"
      by (rule dir_inv_relaxed[OF inv assms(2) cur assms(3) True])
    have 2: "(g(neighbor \<mapsto> g_current + 1)) current = Some g_current" using cur ne by simp
    have 3: "dom (fst (snd (snd d0))) \<subseteq> dom (g(neighbor \<mapsto> g_current + 1))" using sub by auto
    have dec: "(g_measure n (g(neighbor \<mapsto> g_current + 1)), g_measure n g) \<in> less_than <*lex*> less_than"
      by (rule g_measure_decreases[OF dir_invD(1)[OF inv] vn True])
    have 4: "(g_measure n (g(neighbor \<mapsto> g_current + 1)), g_measure n (fst (snd (snd d0))))
               \<in> less_than <*lex*> less_than"
    proof (cases "d = d0")
      case True
      then have "fst (snd (snd d0)) = g" using d by auto
      with dec show ?thesis by simp
    next
      case False
      with prog have "(g_measure n g, g_measure n (fst (snd (snd d0)))) \<in> less_than <*lex*> less_than"
        by simp
      with dec show ?thesis by (rule lex_pair_trans)
    qed
    show ?thesis unfolding r expand_post_def using 1 2 3 4 by simp
  qed
qed

lemma expand_total:
  assumes inv: "dir_inv n root open_set came_from g_score" and n: "0 < n"
    and cur: "g_score current = Some g_current"
  shows "\<exists>d. expand n current (open_set, came_from, g_score, evaluated) = Inr d \<and>
           expand_post n root current g_current (open_set, came_from, g_score, evaluated) d"
proof -
  let ?d0 = "(open_set, came_from, g_score, evaluated)"
  have vc: "valid_state n current" using dir_invD(3)[OF inv, of current] cur by auto
  obtain j where j: "j < n * n" "argwhere_zero current = [j]"
    using valid_state_blank[OF vc n] by blast
  obtain actions where acts: "available_actions n current = Inr actions"
    using available_actions_set[OF j(2) n j(1)] by blast
  have p0: "expand_post n root current g_current ?d0 ?d0"
    using inv cur by (simp add: expand_post_def)
  have step: "\<exists>d'. relax n current a d = Inr d' \<and> expand_post n root current g_current ?d0 d'"
    if "a \<in> set actions" "expand_post n root current g_current ?d0 d" for a d
  proof -
    obtain op cf g c where d: "d = (op, cf, g, c)" by (cases d)
    have gc: "g current = Some g_current" using that(2) by (simp add: expand_post_def d)
    from relax_eq[of n current g g_current actions a op cf c, OF vc n gc acts that(1)] obtain neighbor where
      nb: "legal_move n current neighbor" "relax n current a d = Inr (relaxed n current g_current neighbor d)"
      unfolding d by blast
    from relaxed_post[OF that(2) n nb(1)] nb(2) show ?thesis by simp
  qed
  from for_each_rule[of "expand_post n root current g_current ?d0" ?d0 actions "relax n current", OF p0 step]
  show ?thesis by (simp add: expand_def acts)
qed

lemma forward_step_total:
  assumes inv: "engine_inv n start st" and nm: "meeting_node st = None"
    and ne: "open_forward st \<noteq> []"
  shows "\<exists>b st'. forward_step n st = Inr (b, st') \<and> engine_inv n start st' \<and>
           open_backward st' = open_backward st \<and>
           (b \<longrightarrow> meeting_node st' \<noteq> None) \<and>
           (\<not> b \<longrightarrow> meeting_node st' = None \<and> (st', st) \<in> loop_rel n)"
proof -
  from inv have n: "0 < n" and vs: "valid_state n start"
    and fi: "dir_inv n start (open_forward st) (came_from_forward st) (g_score_forward st)"
    and bi: "dir_inv n (goal_state n) (open_backward st) (came_from_backward st) (g_score_backward st)"
    and ef: "explored_forward st \<subseteq> dom (g_score_forward st)"
    and eb: "explored_backward st \<subseteq> dom (g_score_backward st)"
    by (simp_all add: engine_inv_def)
  obtain e where pop: "heappop (open_forward st) = Inr (e, remove1 e (open_forward st))"
    and e_in: "e \<in> set (open_forward st)" using heappop_nonempty[OF ne] by blast
  obtain f k where e: "e = (f, k)" by (cases e)
  let ?rest = "remove1 e (open_forward st)"
  have kd: "k \<in> dom (g_score_forward st)" using dir_invD(4)[OF fi e_in] e by simp
  then obtain gk where gk: "g_score_forward st k = Some gk" by auto
  have len: "length k = n * n" using dir_invD(3)[OF fi kd] by (rule valid_state_length)
  have fi': "dir_inv n start ?rest (came_from_forward st) (g_score_forward st)"
    by (rule dir_inv_subset[OF fi]) (rule set_remove1_subset)
  have lrest: "length ?rest < length (open_forward st)"
    using e_in length_pos_if_in_set[OF e_in] by (simp add: length_remove1)
  let ?st1 = "st\<lparr>open_forward := ?rest, explored_forward := insert k (explored_forward st)\<rparr>"
  show ?thesis
  proof (cases "k \<in> explored_backward st")
    case True
    let ?st' = "?st1\<lparr>meeting_node := Some k\<rparr>"
    have "forward_step n st = Inr (True, ?st')"
      using ne pop e len True by (simp add: forward_step_def Let_def)
    moreover have "engine_inv n start ?st'"
      using n vs fi' bi ef eb kd True by (simp add: engine_inv_def)
    ultimately show ?thesis by auto
  next
    case False
    obtain d where ex: "expand n k (?rest, came_from_forward st, g_score_forward st, nodes_evaluated st) = Inr d"
      and post: "expand_post n start k gk (?rest, came_from_forward st, g_score_forward st, nodes_evaluated st) d"
      using expand_total[OF fi' n gk] by blast
    obtain op cf g c where d: "d = (op, cf, g, c)" by (cases d)
    let ?st' = "?st1\<lparr>open_forward := op, came_from_forward := cf, g_score_forward := g,
                       nodes_evaluated := c\<rparr>"
    have step: "forward_step n st = Inr (False, ?st')"
      using ne pop e len False ex d by (simp add: forward_step_def Let_def)
    from post have di: "dir_inv n start op cf g" and sub: "dom (g_score_forward st) \<subseteq> dom g"
      and prog: "(op = ?rest \<and> g = g_score_forward st) \<or>
                 (g_measure n g, g_measure n (g_score_forward st)) \<in> less_than <*lex*> less_than"
      by (auto simp: expand_post_def d)
    have "insert k (explored_forward st) \<subseteq> dom g" using ef kd sub by blast
    then have einv: "engine_inv n start ?st'"
      using n vs di bi eb nm by (simp add: engine_inv_def)
    have "(?st', st) \<in> loop_rel n"
      using prog lrest by (auto simp: loop_rel_def fwd_measure_def)
    with step einv nm show ?thesis by auto
  qed
qed

lemma backward_step_total:
  assumes inv: "engine_inv n start st" and nm: "meeting_node st = None"
    and ne: "open_backward st \<noteq> []"
  shows "\<exists>b st'. backward_step n st = Inr (b, st') \<and> engine_inv n start st' \<and>
           fwd_measure n st' = fwd_measure n st \<and>
           (b \<longrightarrow> meeting_node st' \<noteq> None) \<and>
           (\<not> b \<longrightarrow> meeting_node st' = None)"
proof -
  from inv have n: "0 < n" and vs: "valid_state n start"
    and fi: "dir_inv n start (open_forward st) (came_from_forward st) (g_score_forward st)"
    and bi: "dir_inv n (goal_state n) (open_backward st) (came_from_backward st) (g_score_backward st)"
    and ef: "explored_forward st \<subseteq> dom (g_score_forward st)"
    and eb: "explored_backward st \<subseteq> dom (g_score_backward st)"
    by (simp_all add: engine_inv_def)
  obtain e where pop: "heappop (open_backward st) = Inr (e, remove1 e (open_backward st))"
    and e_in: "e \<in> set (open_backward st)" using heappop_nonempty[OF ne] by blast
  obtain f k where e: "e = (f, k)" by (cases e)
  let ?rest = "remove1 e (open_backward st)"
  have kd: "k \<in> dom (g_score_backward st)" using dir_invD(4)[OF bi e_in] e by simp
  then obtain gk where gk: "g_score_backward st k = Some gk" by auto
  have len: "length k = n * n" using dir_invD(3)[OF bi kd] by (rule valid_state_length)
  have bi': "dir_inv n (goal_state n) ?rest (came_from_backward st) (g_score_backward st)"
    by (rule dir_inv_subset[OF bi]) (rule set_remove1_subset)
  let ?st1 = "st\<lparr>open_backward := ?rest, explored_backward := insert k (explored_backward st)\<rparr>"
  show ?thesis
  proof (cases "k \<in> explored_forward st")
    case True
    let ?st' = "?st1\<lparr>meeting_node := Some k\<rparr>"
    have "backward_step n st = Inr (True, ?st')"
      using ne pop e len True by (simp add: backward_step_def Let_def)
    moreover have "engine_inv n start ?st'"
      using n vs fi bi' ef eb kd True by (simp add: engine_inv_def)
    ultimately show ?thesis by (auto simp: fwd_measure_def)
  next
    case False
    obtain d where ex: "expand n k (?rest, came_from_backward st, g_score_backward st, nodes_evaluated st) = Inr d"
      and post: "expand_post n (goal_state n) k gk (?rest, came_from_backward st, g_score_backward st, nodes_evaluated st) d"
      using expand_total[OF bi' n gk] by blast
    obtain op cf g c where d: "d = (op, cf, g, c)" by (cases d)
    let ?st' = "?st1\<lparr>open_backward := op, came_from_backward := cf, g_score_backward := g,
                       nodes_evaluated := c\<rparr>"
    have step: "backward_step n st = Inr (False, ?st')"
      using ne pop e len False ex d by (simp add: backward_step_def Let_def)
    from post have di: "dir_inv n (goal_state n) op cf g" and sub: "dom (g_score_backward st) \<subseteq> dom g"
      by (auto simp: expand_post_def d)
    have "insert k (explored_backward st) \<subseteq> dom g" using eb kd sub by blast
    then have einv: "engine_inv n start ?st'"
      using n vs di fi ef nm by (simp add: engine_inv_def)
    with step nm show ?thesis by (auto simp: fwd_measure_def)
  qed
qed

lemma initial_engine_fields:
  "open_forward (initial_engine n s) = [(manhattan_distance n s, s)]"
  "came_from_forward (initial_engine n s) = [s \<mapsto> None]"
  "g_score_forward (initial_engine n s) = [s \<mapsto> 0]"
  "open_backward (initial_engine n s) = [(manhattan_distance n (goal_state n), goal_state n)]"
  "came_from_backward (initial_engine n s) = [goal_state n \<mapsto> None]"
  "g_score_backward (initial_engine n s) = [goal_state n \<mapsto> 0]"
  "explored_forward (initial_engine n s) = {}"
  "explored_backward (initial_engine n s) = {}"
  "nodes_evaluated (initial_engine n s) = 0"
  "meeting_node (initial_engine n s) = None"
  by (simp_all add: initial_engine_def a_star_search_def heappush_def)

lemma dir_inv_initial:
  assumes "valid_state n root"
  shows "dir_inv n root [(f, root)] [root \<mapsto> None] [root \<mapsto> 0]"
  using assms by (intro dir_invI) (auto split: if_splits)

lemma engine_inv_initial:
  assumes "valid_state n start" "0 < n"
  shows "engine_inv n start (initial_engine n start)"
  unfolding engine_inv_def initial_engine_fields
  using assms dir_inv_initial[OF assms(1)] dir_inv_initial[OF goal_state_valid[OF assms(2)]]
  by simp

lemma walk_None: "walk came_from None path = Some path"
  by (subst walk.simps) simp

lemma walk_Some: "walk came_from (Some k) path = walk came_from (dict_get came_from k) (path @ [k])"
  by (subst walk.simps) simp

lemma walk_total:
  assumes inv: "dir_inv n root open_set came_from g_score" and g: "g_score k = Some gk"
  shows "\<exists>p. walk came_from (Some k) acc = Some (acc @ p) \<and> p \<noteq> [] \<and> hd p = k \<and>
           last p = root \<and> successively (\<lambda>a b. legal_move n b a) p \<and> set p \<subseteq> dom g_score"
  using g
proof (induction gk arbitrary: k acc rule: less_induct)
  case (less gk)
  note D = dir_invD[OF inv]
  have "k \<in> dom came_from" using D(2) less.prems by auto
  then obtain v where v: "came_from k = Some v" by auto
  show ?case
  proof (cases v)
    case None
    then have "k = root" using D(7) v by simp
    moreover have "walk came_from (Some k) acc = Some (acc @ [k])"
      using v None by (simp add: walk_Some dict_get_def walk_None)
    ultimately show ?thesis using less.prems by auto
  next
    case (Some p)
    from D(8)[of k p] v Some obtain gp where gp: "g_score p = Some gp" "gp < gk" "legal_move n p k"
      using less.prems by auto
    from less.IH[OF gp(2) gp(1), of "acc @ [k]"] obtain q where
      q: "walk came_from (Some p) (acc @ [k]) = Some ((acc @ [k]) @ q)" "q \<noteq> []" "hd q = p"
         "last q = root" "successively (\<lambda>a b. legal_move n b a) q" "set q \<subseteq> dom g_score" by blast
    have "walk came_from (Some k) acc = Some (acc @ (k # q))"
      using v Some q(1) by (simp add: walk_Some[of _ k] dict_get_def)
    moreover have "successively (\<lambda>a b. legal_move n b a) (k # q)"
      using q(2,3,5) gp(3) by (simp add: successively_Cons)
    ultimately show ?thesis using q(2,4,6) less.prems by (intro exI[of _ "k # q"]) auto
  qed
qed

lemma successively_legal_move_flip:
  assumes "0 < n" "successively (\<lambda>a b. legal_move n b a) p" "\<forall>s \<in> set p. valid_state n s"
  shows "successively (legal_move n) p"
  using assms(2,3)
proof (induction p rule: induct_list012)
  case (3 x y zs)
  then have "legal_move n y x" "valid_state n y" by auto
  then have "legal_move n x y" using legal_move_sym[OF _ assms(1)] by blast
  with 3 show ?case by simp
qed simp_all

lemma reconstruct_total:
  assumes inv: "engine_inv n start st" and m: "meeting_node st = Some m"
  shows "\<exists>pf pb. walk (came_from_forward st) (Some m) [] = Some pf \<and>
           walk (came_from_backward st) (dict_get (came_from_backward st) m) [] = Some pb \<and>
           rev pf @ pb \<noteq> [] \<and> hd (rev pf @ pb) = start \<and> last (rev pf @ pb) = goal_state n \<and>
           successively (legal_move n) (rev pf @ pb)"
proof -
  from inv have n: "0 < n"
    and fi: "dir_inv n start (open_forward st) (came_from_forward st) (g_score_forward st)"
    and bi: "dir_inv n (goal_state n) (open_backward st) (came_from_backward st) (g_score_backward st)"
    and ef: "explored_forward st \<subseteq> dom (g_score_forward st)"
    and eb: "explored_backward st \<subseteq> dom (g_score_backward st)"
    and mm: "m \<in> explored_forward st" "m \<in> explored_backward st"
    using m by (simp_all add: engine_inv_def)
  note F = dir_invD[OF fi] and B = dir_invD[OF bi]
  obtain gf where gf: "g_score_forward st m = Some gf" using ef mm(1) by auto
  obtain gb where gb: "g_score_backward st m = Some gb" using eb mm(2) by auto
  from walk_total[OF fi gf, of "[]"] obtain pf where
    pf: "walk (came_from_forward st) (Some m) [] = Some pf" "pf \<noteq> []" "hd pf = m" "last pf = start"
        "successively (\<lambda>a b. legal_move n b a) pf" "set pf \<subseteq> dom (g_score_forward st)" by auto
  have vf: "\<forall>s \<in> set pf. valid_state n s" using pf(6) F(3) by blast
  have chain_f: "successively (legal_move n) (rev pf)" using pf(5) by simp
  have hd_f: "hd (rev pf) = start" using pf(2,4) by (simp add: hd_rev)
  have last_f: "last (rev pf) = m" using pf(2,3) by (simp add: last_rev)
  have "m \<in> dom (came_from_backward st)" using B(2) gb by auto
  then obtain v where v: "came_from_backward st m = Some v" by auto
  show ?thesis
  proof (cases v)
    case None
    then have "m = goal_state n" using B(7) v by simp
    moreover have "walk (came_from_backward st) (dict_get (came_from_backward st) m) [] = Some []"
      using v None by (simp add: dict_get_def walk_None)
    ultimately show ?thesis using pf(1,2) chain_f hd_f last_f by auto
  next
    case (Some p)
    from B(8)[of m p] v Some obtain gp where gp: "g_score_backward st p = Some gp" "legal_move n p m"
      by auto
    from walk_total[OF bi gp(1), of "[]"] obtain pb where
      pb: "walk (came_from_backward st) (Some p) [] = Some pb" "pb \<noteq> []" "hd pb = p"
          "last pb = goal_state n" "successively (\<lambda>a b. legal_move n b a) pb"
          "set pb \<subseteq> dom (g_score_backward st)" by auto
    have vb: "\<forall>s \<in> set pb. valid_state n s" using pb(6) B(3) by blast
    have chain_b: "successively (legal_move n) pb"
      by (rule successively_legal_move_flip[OF n pb(5) vb])
    have vp: "valid_state n p" using B(3) gp(1) by auto
    have link: "legal_move n m p" by (rule legal_move_sym[OF vp n gp(2)])
    have w: "walk (came_from_backward st) (dict_get (came_from_backward st) m) [] = Some pb"
      using v Some pb(1) by (simp add: dict_get_def)
    have "successively (legal_move n) (rev pf @ pb)"
      using chain_f chain_b link last_f pb(2,3) pf(2)
      by (simp add: successively_append_iff)
    moreover have "hd (rev pf @ pb) = start" using hd_f pf(2) by simp
    moreover have "last (rev pf @ pb) = goal_state n" using pb(2,4) by simp
    ultimately show ?thesis using pf(1) w pb(2) by auto
  qed
qed

lemma reachable_inv:
  assumes "reachable n start ph st" "valid_state n start" "0 < n"
  shows "engine_inv n start st \<and> (ph \<noteq> Done \<longrightarrow> meeting_node st = None) \<and>
         (ph = Mid \<longrightarrow> open_backward st \<noteq> [])"
  using assms(1)
proof (induction rule: reachable.induct)
  case reachable_init
  then show ?case using engine_inv_initial[OF assms(2,3)] by (simp add: initial_engine_fields)
next
  case (reachable_forward st broke st1)
  then have inv: "engine_inv n start st" and nm: "meeting_node st = None" by simp_all
  from forward_step_total[OF inv nm reachable_forward(2)] obtain b st' where
    f: "forward_step n st = Inr (b, st')" "engine_inv n start st'"
       "open_backward st' = open_backward st" "b \<longrightarrow> meeting_node st' \<noteq> None"
       "\<not> b \<longrightarrow> meeting_node st' = None \<and> (st', st) \<in> loop_rel n" by blast
  from f(1) reachable_forward(4) have eq: "b = broke" "st' = st1" by simp_all
  show ?case using f(2,3,5) reachable_forward(3) unfolding eq by simp
next
  case (reachable_backward st1 broke st2)
  then have inv: "engine_inv n start st1" and nm: "meeting_node st1 = None"
    and ne: "open_backward st1 \<noteq> []" by simp_all
  from backward_step_total[OF inv nm ne] obtain b st' where
    f: "backward_step n st1 = Inr (b, st')" "engine_inv n start st'"
       "\<not> b \<longrightarrow> meeting_node st' = None" by blast
  from f(1) reachable_backward(2) have eq: "b = broke" "st' = st2" by simp_all
  show ?case using f(2,3) unfolding eq by simp
next
  case (reachable_exit st)
  then show ?case by simp
qed

lemma main_loop_reachable:
  assumes "reachable n start Head st" "valid_state n start" "0 < n"
  shows "\<exists>st'. main_loop n st = Some (Inr st') \<and> reachable n start Done st' \<and>
           (meeting_node st' = None \<longrightarrow> open_forward st' = [] \<or> open_backward st' = [])"
  using assms(1)
proof (induction st rule: wf_induct_rule[OF wf_loop_rel[of n]])
  case (1 st)
  from reachable_inv[OF "1.prems" assms(2,3)]
  have inv: "engine_inv n start st" and nm: "meeting_node st = None" by simp_all
  show ?case
  proof (cases "open_forward st \<noteq> [] \<and> open_backward st \<noteq> []")
    case False
    then have ml: "main_loop n st = Some (Inr st)" by (subst main_loop.simps) auto
    have e: "open_forward st = [] \<or> open_backward st = []" using False by blast
    have "reachable n start Done st" by (rule reachable_exit[OF "1.prems" e])
    then show ?thesis using ml e by (intro exI[of _ st]) auto
  next
    case True
    then have ne: "open_forward st \<noteq> []" "open_backward st \<noteq> []" by simp_all
    from forward_step_total[OF inv nm ne(1)] obtain b1 st1 where
      f: "forward_step n st = Inr (b1, st1)" "engine_inv n start st1"
         "open_backward st1 = open_backward st" "b1 \<longrightarrow> meeting_node st1 \<noteq> None"
         "\<not> b1 \<longrightarrow> meeting_node st1 = None \<and> (st1, st) \<in> loop_rel n" by blast
    have r1: "reachable n start (if b1 then Done else Mid) st1"
      by (rule reachable_forward[OF "1.prems" ne f(1)])
    show ?thesis
    proof (cases b1)
      case True
      have ml: "main_loop n st = Some (Inr st1)"
        using ne f(1) True by (subst main_loop.simps) (simp add: iteration_def)
      have "reachable n start Done st1" using r1 True by simp
      moreover have "meeting_node st1 \<noteq> None" using f(4) True by simp
      ultimately show ?thesis using ml by (intro exI[of _ st1]) auto
    next
      case False
      with f have nm1: "meeting_node st1 = None" and rel1: "(st1, st) \<in> loop_rel n" by auto
      have ne1: "open_backward st1 \<noteq> []" using f(3) ne(2) by simp
      from backward_step_total[OF f(2) nm1 ne1] obtain b2 st2 where
        b: "backward_step n st1 = Inr (b2, st2)" "engine_inv n start st2"
           "fwd_measure n st2 = fwd_measure n st1" "b2 \<longrightarrow> meeting_node st2 \<noteq> None"
           "\<not> b2 \<longrightarrow> meeting_node st2 = None" by blast
      have r2: "reachable n start (if b2 then Done else Head) st2"
        using reachable_backward[OF _ b(1)] r1 False by simp
      have it: "iteration n st = Inr (b2, st2)" using f(1) False b(1) by (simp add: iteration_def)
      show ?thesis
      proof (cases b2)
        case True
        have ml: "main_loop n st = Some (Inr st2)"
          using ne it True by (subst main_loop.simps) simp
        have "reachable n start Done st2" using r2 True by simp
        moreover have "meeting_node st2 \<noteq> None" using b(4) True by simp
        ultimately show ?thesis using ml by (intro exI[of _ st2]) auto
      next
        case b2f: False
        have eq: "main_loop n st = main_loop n st2"
          using ne it b2f by (subst main_loop.simps) simp
        have rel2: "(st2, st) \<in> loop_rel n" using rel1 b(3) by (simp add: loop_rel_def)
        have h2: "reachable n start Head st2" using r2 b2f by simp
        from "1.IH"[OF rel2 h2] show ?thesis unfolding eq .
      qed
    qed
  qed
qed

lemma bidirectional_a_star_reachable:
  assumes "valid_state n start" "0 < n"
  shows "\<exists>st res. main_loop n (initial_engine n start) = Some (Inr st) \<and>
           reachable n start Done st \<and>
           bidirectional_a_star n start = Some (Inr res) \<and> search_post n start st res"
proof -
  have len: "length (goal_state n) = n * n" "length start = n * n"
    using goal_state_length[OF assms(2)] valid_state_length[OF assms(1)] by simp_all
  from main_loop_reachable[OF reachable_init assms] obtain st where
    st: "main_loop n (initial_engine n start) = Some (Inr st)" "reachable n start Done st"
        "meeting_node st = None \<longrightarrow> open_forward st = [] \<or> open_backward st = []"
    by auto
  have inv: "engine_inv n start st" using reachable_inv[OF st(2) assms] by simp
  show ?thesis
  proof (cases "meeting_node st")
    case None
    then have "bidirectional_a_star n start = Some (Inr (None, nodes_evaluated st))"
      using st(1) len by (simp add: bidirectional_a_star_def)
    moreover have "search_post n start st (None, nodes_evaluated st)"
      using None st(3) by (simp add: search_post_def)
    ultimately show ?thesis using st(1,2) by (intro exI[of _ st] exI[of _ "(None, nodes_evaluated st)"]) simp
  next
    case (Some m)
    from reconstruct_total[OF inv Some] obtain pf pb where
      r: "walk (came_from_forward st) (Some m) [] = Some pf"
         "walk (came_from_backward st) (dict_get (came_from_backward st) m) [] = Some pb"
         "rev pf @ pb \<noteq> []" "hd (rev pf @ pb) = start" "last (rev pf @ pb) = goal_state n"
         "successively (legal_move n) (rev pf @ pb)" by blast
    have "bidirectional_a_star n start = Some (Inr (Some (rev pf @ pb), nodes_evaluated st))"
      using st(1) len Some r(1,2) by (simp add: bidirectional_a_star_def)
    moreover have "search_post n start st (Some (rev pf @ pb), nodes_evaluated st)"
      using Some r(3-6) by (simp add: search_post_def)
    ultimately show ?thesis using st(1,2)
      by (intro exI[of _ st] exI[of _ "(Some (rev pf @ pb), nodes_evaluated st)"]) simp
  qed
qed

lemma heappop_single: "heappop [e] = Inr (e, [])"
  by simp

lemma relax_push:
  assumes "relax n current a (op, cf, g, c) = Inr (op', cf', g', c')" "op' \<noteq> op"
  shows "\<exists>nb f t. op' = op @ [(f, nb)] \<and> g' nb = Some t \<and>
           (case g nb of None \<Rightarrow> True | Some old \<Rightarrow> t < old)"
proof (cases "do_action n current a")
  case (Inl e)
  with assms(1) show ?thesis by (simp add: relax_def)
next
  case (Inr nb)
  show ?thesis
  proof (cases "g current")
    case None
    with assms(1) Inr show ?thesis by (simp add: relax_def)
  next
    case (Some gc)
    show ?thesis
    proof (cases "g nb = None \<or> gc + 1 < the (g nb)")
      case True
      with assms(1) Inr Some have "op' = op @ [(int (gc + 1) + manhattan_distance n nb, nb)]"
        and "g' = g(nb \<mapsto> gc + 1)"
        by (simp_all add: relax_def heappush_def Let_def)
      with True show ?thesis by (auto split: option.splits)
    next
      case False
      with assms(1) Inr Some have "op' = op" by (auto simp: relax_def Let_def)
      with assms(2) show ?thesis by simp
    qed
  qed
qed

lemma goal_search:
  assumes "0 < n"
  shows "\<exists>c. bidirectional_a_star n (goal_state n) = Some (Inr (Some [goal_state n], c))"
proof -
  let ?g = "goal_state n"
  let ?st0 = "initial_engine n ?g"
  have vg: "valid_state n ?g" by (rule goal_state_valid[OF assms])
  have len: "length ?g = n * n" by (rule goal_state_length[OF assms])
  have di: "dir_inv n ?g [] [?g \<mapsto> None] [?g \<mapsto> 0]"
    by (rule dir_inv_subset[OF dir_inv_initial[OF vg, of 0]]) simp
  have g0: "[?g \<mapsto> (0::nat)] ?g = Some 0" by simp
  from expand_total[OF di assms g0, of 0] obtain d where
    ex: "expand n ?g ([], [?g \<mapsto> None], [?g \<mapsto> 0], 0) = Inr d"
    and post: "expand_post n ?g ?g 0 ([], [?g \<mapsto> None], [?g \<mapsto> 0], 0) d" by blast
  obtain op cf g c where d: "d = (op, cf, g, c)" by (cases d)
  from post have di': "dir_inv n ?g op cf g" by (simp add: expand_post_def d)
  have cfg: "cf ?g = Some None" by (rule dir_invD(6)[OF di'])
  let ?st1 = "?st0\<lparr>open_forward := op, came_from_forward := cf, g_score_forward := g,
                    explored_forward := {?g}, nodes_evaluated := c\<rparr>"
  have f: "forward_step n ?st0 = Inr (False, ?st1)"
    using ex d len by (simp add: forward_step_def initial_engine_fields Let_def)
  let ?st2 = "?st1\<lparr>open_backward := [], explored_backward := {?g}, meeting_node := Some ?g\<rparr>"
  have b: "backward_step n ?st1 = Inr (True, ?st2)"
    using len by (simp add: backward_step_def initial_engine_fields Let_def)
  have it: "iteration n ?st0 = Inr (True, ?st2)" using f b by (simp add: iteration_def)
  have ml: "main_loop n ?st0 = Some (Inr ?st2)"
    using it by (subst main_loop.simps) (simp add: initial_engine_fields)
  have wf: "walk cf (Some ?g) [] = Some [?g]"
    using cfg by (simp add: walk_Some dict_get_def walk_None)
  have wb: "walk [?g \<mapsto> None] (dict_get [?g \<mapsto> None] ?g) [] = Some []"
    by (simp add: dict_get_def walk_None)
  have "bidirectional_a_star n ?g = Some (Inr (Some [?g], c))"
    using ml wf wb len by (simp add: bidirectional_a_star_def initial_engine_fields)
  then show ?thesis by blast
qed

lemma eval_one_move: "bidirectional_a_star 2 [1, 0, 3, 2] = Some (Inr (Some [[1, 0, 3, 2], [1, 2, 3, 0]], 4))"
  by code_simp

lemma eval_unsolvable: "bidirectional_a_star 2 [2, 1, 3, 0] = Some (Inr (None, 22))"
  by code_simp

lemma valid_examples:
  "valid_state 2 [1, 2, 3, 0]" "valid_state 2 [1, 0, 3, 2]" "valid_state 2 [2, 1, 3, 0]"
  by code_simp+

lemma goal_state_2: "goal_state 2 = [1, 2, 3, 0]"
  by code_simp

lemma bytes_less_iff: "bytes_less a b \<longleftrightarrow> a < b"
  by (induction a b rule: bytes_less.induct) auto

lemma entry_less_iff: "entry_less e1 e2 \<longleftrightarrow> entry_key e1 < entry_key e2"
  by (auto simp: entry_less_def entry_key_def bytes_less_iff)

lemma least_entry_le: "x \<in> set (m # es) \<Longrightarrow> entry_key (least_entry m es) \<le> entry_key x"
proof (induction es arbitrary: m x)
  case Nil
  then show ?case by simp
next
  case (Cons e es)
  let ?m = "if entry_less e m then e else m"
  have m: "entry_key ?m \<le> entry_key m" "entry_key ?m \<le> entry_key e"
    by (auto simp: entry_less_iff)
  have r: "entry_key (least_entry ?m es) \<le> entry_key ?m" using Cons.IH[of ?m ?m] by simp
  have eq: "least_entry m (e # es) = least_entry ?m es" by simp
  from Cons.prems consider "x = m" | "x = e" | "x \<in> set es" by auto
  then show ?case
  proof cases
    case 1
    show ?thesis unfolding eq 1 using r m(1) by (rule order_trans)
  next
    case 2
    show ?thesis unfolding eq 2 using r m(2) by (rule order_trans)
  next
    case 3
    show ?thesis unfolding eq using Cons.IH[of x ?m] 3 by simp
  qed
qed

lemma heappop_least:
  assumes "heappop h = Inr (e, rest)"
  shows "e \<in> set h \<and> rest = remove1 e h \<and> (\<forall>x \<in> set h. \<not> entry_less x e)"
proof -
  from assms obtain y ys where h: "h = y # ys" by (cases h) auto
  from assms have e: "e = least_entry y ys" and rest: "rest = remove1 e h"
    unfolding h by (auto simp: Let_def)
  have "e \<in> set h" unfolding e h by (rule least_entry_mem)
  moreover have "\<not> entry_less x e" if "x \<in> set h" for x
    using least_entry_le[of x y ys] that unfolding e h entry_less_iff by (simp add: not_less)
  ultimately show ?thesis using rest by blast
qed

lemma relax_relaxed:
  assumes "do_action n current a = Inr neighbor" "g_score current = Some g_current"
  shows "relax n current a (open_set, came_from, g_score, evaluated) =
           Inr (relaxed n current g_current neighbor (open_set, came_from, g_score, evaluated))"
  using assms by (simp add: relax_def relaxed_def heappush_def Let_def)

lemma actions_yield_neighbors:
  assumes "valid_state n current" "0 < n" "available_actions n current = Inr actions"
    "a \<in> set actions"
  shows "\<exists>neighbor. do_action n current a = Inr neighbor"
  using do_action_effect[OF assms] by blast

lemma relaxed_cases:
  obtains
    (same) "relaxed n current g_current neighbor (op, cf, g, c) = (op, cf, g, c)"
      "\<exists>gn. g neighbor = Some gn \<and> gn \<le> g_current + 1"
  | (push) "relaxed n current g_current neighbor (op, cf, g, c) =
       (op @ [(int (g_current + 1) + manhattan_distance n neighbor, neighbor)],
        cf(neighbor \<mapsto> Some current), g(neighbor \<mapsto> g_current + 1), c + 1)"
      "g neighbor = None \<or> g_current + 1 < the (g neighbor)"
proof (cases "g neighbor = None \<or> g_current + 1 < the (g neighbor)")
  case True
  then show ?thesis using push by (simp add: relaxed_def)
next
  case False
  then have "\<exists>gn. g neighbor = Some gn \<and> gn \<le> g_current + 1" by auto
  with False show ?thesis using same by (simp add: relaxed_def)
qed

lemma lazy_mid_push:
  assumes lz: "lazy_mid n P op g E"
    and upd: "g nb = None \<or> t < the (g nb)"
  shows "lazy_mid n P (op @ [(int t + manhattan_distance n nb, nb)]) (g(nb \<mapsto> t)) E"
  unfolding lazy_mid_def
proof (intro conjI ballI allI impI)
  fix e assume e: "e \<in> set (op @ [(int t + manhattan_distance n nb, nb)])"
  show "\<exists>gk. (g(nb \<mapsto> t)) (snd e) = Some gk \<and> int gk + manhattan_distance n (snd e) \<le> fst e"
  proof (cases "e \<in> set op")
    case True
    with lz obtain gk where gk: "g (snd e) = Some gk" "int gk + manhattan_distance n (snd e) \<le> fst e"
      unfolding lazy_mid_def by blast
    show ?thesis
    proof (cases "snd e = nb")
      case True
      with gk upd have "t < gk" by simp
      with True gk show ?thesis by simp
    next
      case False
      with gk show ?thesis by simp
    qed
  next
    case False
    with e have "e = (int t + manhattan_distance n nb, nb)" by simp
    then show ?thesis by simp
  qed
next
  fix k gk assume k: "k \<notin> P" "(g(nb \<mapsto> t)) k = Some gk"
  show "(int gk + manhattan_distance n k, k) \<in> set (op @ [(int t + manhattan_distance n nb, nb)]) \<or>
        (k \<in> E \<and> (\<forall>nb'. legal_move n k nb' \<longrightarrow> (\<exists>gn. (g(nb \<mapsto> t)) nb' = Some gn \<and> gn \<le> gk + 1)))"
  proof (cases "k = nb")
    case True
    with k(2) show ?thesis by simp
  next
    case False
    with k(2) have gk: "g k = Some gk" by simp
    from lz k(1) gk consider "(int gk + manhattan_distance n k, k) \<in> set op"
      | "k \<in> E" "\<forall>nb'. legal_move n k nb' \<longrightarrow> (\<exists>gn. g nb' = Some gn \<and> gn \<le> gk + 1)"
      unfolding lazy_mid_def by blast
    then show ?thesis
    proof cases
      case 1
      then show ?thesis by simp
    next
      case 2
      have "\<exists>gn. (g(nb \<mapsto> t)) nb' = Some gn \<and> gn \<le> gk + 1" if "legal_move n k nb'" for nb'
      proof -
        from 2(2) that obtain gn where gn: "g nb' = Some gn" "gn \<le> gk + 1" by blast
        show ?thesis
        proof (cases "nb' = nb")
          case True
          with gn upd have "t < gn" by simp
          with True gn(2) show ?thesis by simp
        next
          case False
          with gn show ?thesis by simp
        qed
      qed
      with 2(1) show ?thesis by blast
    qed
  qed
qed

lemma for_each_relax_lazy:
  assumes "\<forall>a \<in> set acts. \<exists>nb. do_action n cur a = Inr nb"
    "lazy_mid n P op g E" "g cur = Some gc"
  shows "\<exists>op' cf' g' c'. for_each (relax n cur) acts (op, cf, g, c) = Inr (op', cf', g', c') \<and>
           lazy_mid n P op' g' E \<and> g' cur = Some gc \<and>
           (\<forall>x gx. g x = Some gx \<longrightarrow> (\<exists>gx'. g' x = Some gx' \<and> gx' \<le> gx)) \<and>
           (\<forall>a \<in> set acts. \<exists>nb gn. do_action n cur a = Inr nb \<and> g' nb = Some gn \<and> gn \<le> gc + 1)"
  using assms
proof (induction acts arbitrary: op cf g c)
  case Nil
  then show ?case by simp
next
  case (Cons a acts)
  from Cons.prems(1) obtain nb where nb: "do_action n cur a = Inr nb" by auto
  have step: "relax n cur a (op, cf, g, c) = Inr (relaxed n cur gc nb (op, cf, g, c))"
    using relax_relaxed[of n cur a nb g gc op cf c] nb Cons.prems(3) by simp
  obtain op1 cf1 g1 c1 where d1: "relaxed n cur gc nb (op, cf, g, c) = (op1, cf1, g1, c1)"
    by (cases "relaxed n cur gc nb (op, cf, g, c)")
  have p1: "lazy_mid n P op1 g1 E \<and> g1 cur = Some gc \<and>
            (\<forall>x gx. g x = Some gx \<longrightarrow> (\<exists>gx'. g1 x = Some gx' \<and> gx' \<le> gx)) \<and>
            (\<exists>gn. g1 nb = Some gn \<and> gn \<le> gc + 1)"
  proof (cases rule: relaxed_cases[of n cur gc nb op cf g c])
    case same
    with d1 have "op1 = op" "g1 = g" by simp_all
    with Cons.prems(2,3) same(2) show ?thesis by simp
  next
    case push
    with d1 have e: "op1 = op @ [(int (gc + 1) + manhattan_distance n nb, nb)]"
      "g1 = g(nb \<mapsto> gc + 1)" by simp_all
    have "nb \<noteq> cur" using push(2) Cons.prems(3) by auto
    then have "g1 cur = Some gc" using Cons.prems(3) e(2) by simp
    moreover have "lazy_mid n P op1 g1 E" unfolding e by (rule lazy_mid_push[OF Cons.prems(2) push(2)])
    moreover have "\<exists>gx'. g1 x = Some gx' \<and> gx' \<le> gx" if "g x = Some gx" for x gx
      using that push(2) unfolding e(2) by (cases "x = nb") auto
    ultimately show ?thesis unfolding e(2) by simp
  qed
  have acts: "\<forall>a \<in> set acts. \<exists>nb. do_action n cur a = Inr nb" using Cons.prems(1) by simp
  from p1 have lz1: "lazy_mid n P op1 g1 E" and c1: "g1 cur = Some gc" by simp_all
  from Cons.IH[OF acts lz1 c1, of cf1 c1] obtain op' cf' g' c' where
    r: "for_each (relax n cur) acts (op1, cf1, g1, c1) = Inr (op', cf', g', c')"
       "lazy_mid n P op' g' E" "g' cur = Some gc"
       "\<forall>x gx. g1 x = Some gx \<longrightarrow> (\<exists>gx'. g' x = Some gx' \<and> gx' \<le> gx)"
       "\<forall>a \<in> set acts. \<exists>nb gn. do_action n cur a = Inr nb \<and> g' nb = Some gn \<and> gn \<le> gc + 1"
    by blast
  have run: "for_each (relax n cur) (a # acts) (op, cf, g, c) = Inr (op', cf', g', c')"
    using step d1 r(1) by simp
  have mono: "\<exists>gx'. g' x = Some gx' \<and> gx' \<le> gx" if "g x = Some gx" for x gx
  proof -
    from p1 that obtain g1x where "g1 x = Some g1x" "g1x \<le> gx" by blast
    moreover from r(4) this(1) obtain gx' where "g' x = Some gx'" "gx' \<le> g1x" by blast
    ultimately show ?thesis by auto
  qed
  have here: "\<exists>nb gn. do_action n cur a = Inr nb \<and> g' nb = Some gn \<and> gn \<le> gc + 1"
  proof -
    from p1 obtain g1n where "g1 nb = Some g1n" "g1n \<le> gc + 1" by blast
    moreover from r(4) this(1) obtain gn where "g' nb = Some gn" "gn \<le> g1n" by blast
    ultimately show ?thesis using nb by auto
  qed
  from run r(2,3) mono here r(5) show ?case by auto
qed

lemma for_each_id:
  assumes "\<forall>a \<in> set as. f a s = Inr s"
  shows "for_each f as s = Inr s"
  using assms by (induction as) auto

lemma expand_lazy:
  assumes "valid_state n cur" "0 < n" "lazy_mid n {cur} op g E" "cur \<in> E" "g cur = Some gc"
  shows "\<exists>op' cf' g' c'. expand n cur (op, cf, g, c) = Inr (op', cf', g', c') \<and>
           lazy_mid n {} op' g' E \<and>
           (\<forall>x gx. g x = Some gx \<longrightarrow> (\<exists>gx'. g' x = Some gx' \<and> gx' \<le> gx))"
proof -
  obtain j where j: "j < n * n" "argwhere_zero cur = [j]"
    using valid_state_blank[OF assms(1,2)] by blast
  obtain actions where acts: "available_actions n cur = Inr actions"
    using available_actions_set[OF j(2) assms(2) j(1)] by blast
  have all: "\<forall>a \<in> set actions. \<exists>nb. do_action n cur a = Inr nb"
    using actions_yield_neighbors[OF assms(1,2) acts] by blast
  from for_each_relax_lazy[OF all assms(3,5), of cf c] obtain op' cf' g' c' where
    r: "for_each (relax n cur) actions (op, cf, g, c) = Inr (op', cf', g', c')"
       "lazy_mid n {cur} op' g' E" "g' cur = Some gc"
       "\<forall>x gx. g x = Some gx \<longrightarrow> (\<exists>gx'. g' x = Some gx' \<and> gx' \<le> gx)"
       "\<forall>a \<in> set actions. \<exists>nb gn. do_action n cur a = Inr nb \<and> g' nb = Some gn \<and> gn \<le> gc + 1"
    by blast
  have nbs: "\<exists>gn. g' nb = Some gn \<and> gn \<le> gc + 1" if "legal_move n cur nb" for nb
  proof -
    from that obtain a where "a \<in> set actions" "do_action n cur a = Inr nb"
      by (auto simp: legal_move_def acts)
    with r(5) show ?thesis by fastforce
  qed
  have "lazy_mid n {} op' g' E"
    unfolding lazy_mid_def
  proof (intro conjI ballI allI impI)
    fix e assume "e \<in> set op'"
    with r(2) show "\<exists>gk. g' (snd e) = Some gk \<and> int gk + manhattan_distance n (snd e) \<le> fst e"
      unfolding lazy_mid_def by blast
  next
    fix k gk assume k: "k \<notin> {}" "g' k = Some gk"
    show "(int gk + manhattan_distance n k, k) \<in> set op' \<or>
          (k \<in> E \<and> (\<forall>nb. legal_move n k nb \<longrightarrow> (\<exists>gn. g' nb = Some gn \<and> gn \<le> gk + 1)))"
    proof (cases "k = cur")
      case True
      with k(2) r(3) have "gk = gc" by simp
      with True assms(4) nbs show ?thesis by blast
    next
      case False
      with r(2) k(2) show ?thesis unfolding lazy_mid_def by blast
    qed
  qed
  with r(1,4) acts show ?thesis by (simp add: expand_def)
qed

lemma expand_noop:
  assumes "valid_state n cur" "0 < n" "g cur = Some gc"
    "\<forall>nb. legal_move n cur nb \<longrightarrow> (\<exists>gn. g nb = Some gn \<and> gn \<le> gc + 1)"
  shows "expand n cur (op, cf, g, c) = Inr (op, cf, g, c)"
proof -
  obtain j where j: "j < n * n" "argwhere_zero cur = [j]"
    using valid_state_blank[OF assms(1,2)] by blast
  obtain actions where acts: "available_actions n cur = Inr actions"
    using available_actions_set[OF j(2) assms(2) j(1)] by blast
  have "relax n cur a (op, cf, g, c) = Inr (op, cf, g, c)" if "a \<in> set actions" for a
  proof -
    from actions_yield_neighbors[OF assms(1,2) acts that] obtain nb where
      nb: "do_action n cur a = Inr nb" by blast
    then have "legal_move n cur nb" using that by (auto simp: legal_move_def acts)
    with assms(4) obtain gn where "g nb = Some gn" "gn \<le> gc + 1" by blast
    then have "relaxed n cur gc nb (op, cf, g, c) = (op, cf, g, c)" by (simp add: relaxed_def)
    with relax_relaxed[of n cur a nb g gc op cf c] nb assms(3) show ?thesis by simp
  qed
  then have "for_each (relax n cur) actions (op, cf, g, c) = Inr (op, cf, g, c)"
    by (intro for_each_id) simp
  then show ?thesis by (simp add: expand_def acts)
qed

lemma forward_step_pop:
  assumes "heappop (open_forward st) = Inr ((f, k), rest)" "length k = n * n"
  shows "forward_step n st =
     (if k \<in> explored_backward st then
        Inr (True, st\<lparr>open_forward := rest,
                       explored_forward := insert k (explored_forward st),
                       meeting_node := Some k\<rparr>)
      else case expand n k (rest, came_from_forward st, g_score_forward st, nodes_evaluated st) of
             Inl e \<Rightarrow> Inl e
           | Inr (op, cf, g, c) \<Rightarrow>
               Inr (False, st\<lparr>open_forward := op,
                              explored_forward := insert k (explored_forward st),
                              came_from_forward := cf, g_score_forward := g,
                              nodes_evaluated := c\<rparr>))"
proof -
  have "open_forward st \<noteq> []" using assms(1) by (cases "open_forward st") auto
  then show ?thesis using assms
    by (auto simp: forward_step_def Let_def split: sum.splits prod.splits)
qed

lemma backward_step_pop:
  assumes "heappop (open_backward st) = Inr ((f, k), rest)" "length k = n * n"
  shows "backward_step n st =
     (if k \<in> explored_forward st then
        Inr (True, st\<lparr>open_backward := rest,
                       explored_backward := insert k (explored_backward st),
                       meeting_node := Some k\<rparr>)
      else case expand n k (rest, came_from_backward st, g_score_backward st, nodes_evaluated st) of
             Inl e \<Rightarrow> Inl e
           | Inr (op, cf, g, c) \<Rightarrow>
               Inr (False, st\<lparr>open_backward := op,
                              explored_backward := insert k (explored_backward st),
                              came_from_backward := cf, g_score_backward := g,
                              nodes_evaluated := c\<rparr>))"
proof -
  have "open_backward st \<noteq> []" using assms(1) by (cases "open_backward st") auto
  then show ?thesis using assms
    by (auto simp: backward_step_def Let_def split: sum.splits prod.splits)
qed

lemma lazy_mid_pop:
  assumes "lazy_mid n {} op g E"
  shows "lazy_mid n {k} (remove1 (f, k) op) g (insert k E)"
  unfolding lazy_mid_def
proof (intro conjI ballI allI impI)
  fix e assume "e \<in> set (remove1 (f, k) op)"
  then have "e \<in> set op" using set_remove1_subset[of "(f, k)" op] by blast
  with assms show "\<exists>gk. g (snd e) = Some gk \<and> int gk + manhattan_distance n (snd e) \<le> fst e"
    unfolding lazy_mid_def by blast
next
  fix k' gk assume k': "k' \<notin> {k}" "g k' = Some gk"
  from assms k'(2) consider "(int gk + manhattan_distance n k', k') \<in> set op"
    | "k' \<in> E" "\<forall>nb. legal_move n k' nb \<longrightarrow> (\<exists>gn. g nb = Some gn \<and> gn \<le> gk + 1)"
    unfolding lazy_mid_def by blast
  then show "(int gk + manhattan_distance n k', k') \<in> set (remove1 (f, k) op) \<or>
             (k' \<in> insert k E \<and> (\<forall>nb. legal_move n k' nb \<longrightarrow> (\<exists>gn. g nb = Some gn \<and> gn \<le> gk + 1)))"
  proof cases
    case 1
    moreover have "(int gk + manhattan_distance n k', k') \<noteq> (f, k)" using k'(1) by simp
    ultimately show ?thesis by (simp add: in_set_remove1)
  next
    case 2
    then show ?thesis by simp
  qed
qed

lemma stale_already_expanded:
  assumes lz: "lazy_mid n {} op g E" and pop: "heappop op = Inr ((f, k), rest)"
    and st: "stale n g (f, k)"
  shows "\<exists>gk. g k = Some gk \<and> k \<in> E \<and>
           (\<forall>nb. legal_move n k nb \<longrightarrow> (\<exists>gn. g nb = Some gn \<and> gn \<le> gk + 1))"
proof -
  from heappop_least[OF pop] have mem: "(f, k) \<in> set op"
    and least: "\<forall>x \<in> set op. \<not> entry_less x (f, k)" by simp_all
  from lz mem obtain gk where gk: "g k = Some gk" "int gk + manhattan_distance n k \<le> f"
    unfolding lazy_mid_def by fastforce
  from st gk(1) have "f \<noteq> int gk + manhattan_distance n k" by (simp add: stale_def)
  with gk(2) have lt: "int gk + manhattan_distance n k < f" by simp
  have "(int gk + manhattan_distance n k, k) \<notin> set op"
  proof
    assume "(int gk + manhattan_distance n k, k) \<in> set op"
    with least have "\<not> entry_less (int gk + manhattan_distance n k, k) (f, k)" by blast
    with lt show False by (simp add: entry_less_def)
  qed
  with lz gk(1) show ?thesis unfolding lazy_mid_def by blast
qed

lemma forward_stale_drop:
  assumes inv: "engine_inv n start st" and lz: "lazy_engine n st"
    and pop: "heappop (open_forward st) = Inr (e, rest)"
    and st: "stale n (g_score_forward st) e"
  shows "forward_step n st = Inr (False, st\<lparr>open_forward := rest\<rparr>)"
proof -
  obtain f k where e: "e = (f, k)" by (cases e)
  from inv have n: "0 < n"
    and fi: "dir_inv n start (open_forward st) (came_from_forward st) (g_score_forward st)"
    by (simp_all add: engine_inv_def)
  from lz have lf: "lazy_mid n {} (open_forward st) (g_score_forward st) (explored_forward st)"
    and dj: "explored_forward st \<inter> explored_backward st = {}"
    by (simp_all add: lazy_engine_def)
  from stale_already_expanded[OF lf pop[unfolded e] st[unfolded e]] obtain gk where
    gk: "g_score_forward st k = Some gk" "k \<in> explored_forward st"
        "\<forall>nb. legal_move n k nb \<longrightarrow> (\<exists>gn. g_score_forward st nb = Some gn \<and> gn \<le> gk + 1)"
    by blast
  have vk: "valid_state n k" using dir_invD(3)[OF fi, of k] gk(1) by auto
  have len: "length k = n * n" by (rule valid_state_length[OF vk])
  have nb: "k \<notin> explored_backward st" using dj gk(2) by blast
  have ex: "expand n k (rest, came_from_forward st, g_score_forward st, nodes_evaluated st) =
              Inr (rest, came_from_forward st, g_score_forward st, nodes_evaluated st)"
    by (rule expand_noop[OF vk n gk(1) gk(3)])
  have ins: "insert k (explored_forward st) = explored_forward st" using gk(2) by blast
  show ?thesis
    using forward_step_pop[OF pop[unfolded e] len] nb ex ins by simp
qed

lemma backward_stale_drop:
  assumes inv: "engine_inv n start st" and lz: "lazy_engine n st"
    and pop: "heappop (open_backward st) = Inr (e, rest)"
    and st: "stale n (g_score_backward st) e"
  shows "backward_step n st = Inr (False, st\<lparr>open_backward := rest\<rparr>)"
proof -
  obtain f k where e: "e = (f, k)" by (cases e)
  from inv have n: "0 < n"
    and bi: "dir_inv n (goal_state n) (open_backward st) (came_from_backward st) (g_score_backward st)"
    by (simp_all add: engine_inv_def)
  from lz have lb: "lazy_mid n {} (open_backward st) (g_score_backward st) (explored_backward st)"
    and dj: "explored_forward st \<inter> explored_backward st = {}"
    by (simp_all add: lazy_engine_def)
  from stale_already_expanded[OF lb pop[unfolded e] st[unfolded e]] obtain gk where
    gk: "g_score_backward st k = Some gk" "k \<in> explored_backward st"
        "\<forall>nb. legal_move n k nb \<longrightarrow> (\<exists>gn. g_score_backward st nb = Some gn \<and> gn \<le> gk + 1)"
    by blast
  have vk: "valid_state n k" using dir_invD(3)[OF bi, of k] gk(1) by auto
  have len: "length k = n * n" by (rule valid_state_length[OF vk])
  have nb: "k \<notin> explored_forward st" using dj gk(2) by blast
  have ex: "expand n k (rest, came_from_backward st, g_score_backward st, nodes_evaluated st) =
              Inr (rest, came_from_backward st, g_score_backward st, nodes_evaluated st)"
    by (rule expand_noop[OF vk n gk(1) gk(3)])
  have ins: "insert k (explored_backward st) = explored_backward st" using gk(2) by blast
  show ?thesis
    using backward_step_pop[OF pop[unfolded e] len] nb ex ins by simp
qed

lemma forward_step_lazy:
  assumes inv: "engine_inv n start st" and lz: "lazy_engine n st"
    and ne: "open_forward st \<noteq> []" and step: "forward_step n st = Inr (False, st1)"
  shows "lazy_engine n st1"
proof -
  from inv have n: "0 < n"
    and fi: "dir_inv n start (open_forward st) (came_from_forward st) (g_score_forward st)"
    by (simp_all add: engine_inv_def)
  from lz have lf: "lazy_mid n {} (open_forward st) (g_score_forward st) (explored_forward st)"
    and lb: "lazy_mid n {} (open_backward st) (g_score_backward st) (explored_backward st)"
    and dj: "explored_forward st \<inter> explored_backward st = {}"
    by (simp_all add: lazy_engine_def)
  obtain e where pop: "heappop (open_forward st) = Inr (e, remove1 e (open_forward st))"
    and e_in: "e \<in> set (open_forward st)" using heappop_nonempty[OF ne] by blast
  obtain f k where e: "e = (f, k)" by (cases e)
  have kd: "k \<in> dom (g_score_forward st)" using dir_invD(4)[OF fi e_in] e by simp
  then obtain gk where gk: "g_score_forward st k = Some gk" by auto
  have vk: "valid_state n k" by (rule dir_invD(3)[OF fi kd])
  have len: "length k = n * n" by (rule valid_state_length[OF vk])
  let ?rest = "remove1 (f, k) (open_forward st)"
  let ?E = "insert k (explored_forward st)"
  have mid: "lazy_mid n {k} ?rest (g_score_forward st) ?E" by (rule lazy_mid_pop[OF lf])
  from expand_lazy[OF vk n mid _ gk, of "came_from_forward st" "nodes_evaluated st"]
  obtain op' cf' g' c' where
    ex: "expand n k (?rest, came_from_forward st, g_score_forward st, nodes_evaluated st) =
           Inr (op', cf', g', c')"
    and lz': "lazy_mid n {} op' g' ?E" by auto
  note unfold = forward_step_pop[OF pop[unfolded e] len]
  have nb: "k \<notin> explored_backward st"
  proof
    assume "k \<in> explored_backward st"
    with unfold step show False by simp
  qed
  from unfold nb ex step have st1: "st1 = st\<lparr>open_forward := op', explored_forward := ?E,
       came_from_forward := cf', g_score_forward := g', nodes_evaluated := c'\<rparr>" by simp
  have "?E \<inter> explored_backward st = {}" using dj nb by blast
  with lz' lb show ?thesis unfolding st1 by (simp add: lazy_engine_def)
qed

lemma backward_step_lazy:
  assumes inv: "engine_inv n start st" and lz: "lazy_engine n st"
    and ne: "open_backward st \<noteq> []" and step: "backward_step n st = Inr (False, st1)"
  shows "lazy_engine n st1"
proof -
  from inv have n: "0 < n"
    and bi: "dir_inv n (goal_state n) (open_backward st) (came_from_backward st) (g_score_backward st)"
    by (simp_all add: engine_inv_def)
  from lz have lf: "lazy_mid n {} (open_forward st) (g_score_forward st) (explored_forward st)"
    and lb: "lazy_mid n {} (open_backward st) (g_score_backward st) (explored_backward st)"
    and dj: "explored_forward st \<inter> explored_backward st = {}"
    by (simp_all add: lazy_engine_def)
  obtain e where pop: "heappop (open_backward st) = Inr (e, remove1 e (open_backward st))"
    and e_in: "e \<in> set (open_backward st)" using heappop_nonempty[OF ne] by blast
  obtain f k where e: "e = (f, k)" by (cases e)
  have kd: "k \<in> dom (g_score_backward st)" using dir_invD(4)[OF bi e_in] e by simp
  then obtain gk where gk: "g_score_backward st k = Some gk" by auto
  have vk: "valid_state n k" by (rule dir_invD(3)[OF bi kd])
  have len: "length k = n * n" by (rule valid_state_length[OF vk])
  let ?rest = "remove1 (f, k) (open_backward st)"
  let ?E = "insert k (explored_backward st)"
  have mid: "lazy_mid n {k} ?rest (g_score_backward st) ?E" by (rule lazy_mid_pop[OF lb])
  from expand_lazy[OF vk n mid _ gk, of "came_from_backward st" "nodes_evaluated st"]
  obtain op' cf' g' c' where
    ex: "expand n k (?rest, came_from_backward st, g_score_backward st, nodes_evaluated st) =
           Inr (op', cf', g', c')"
    and lz': "lazy_mid n {} op' g' ?E" by auto
  note unfold = backward_step_pop[OF pop[unfolded e] len]
  have nb: "k \<notin> explored_forward st"
  proof
    assume "k \<in> explored_forward st"
    with unfold step show False by simp
  qed
  from unfold nb ex step have st1: "st1 = st\<lparr>open_backward := op', explored_backward := ?E,
       came_from_backward := cf', g_score_backward := g', nodes_evaluated := c'\<rparr>" by simp
  have "explored_forward st \<inter> ?E = {}" using dj nb by blast
  with lz' lf show ?thesis unfolding st1 by (simp add: lazy_engine_def)
qed

lemma lazy_engine_initial: "lazy_engine n (initial_engine n start)"
  by (simp add: lazy_engine_def lazy_mid_def initial_engine_fields)

lemma reachable_lazy:
  assumes "reachable n start ph st" "valid_state n start" "0 < n"
  shows "ph \<noteq> Done \<longrightarrow> lazy_engine n st"
  using assms(1)
proof (induction rule: reachable.induct)
  case reachable_init
  then show ?case by (simp add: lazy_engine_initial)
next
  case (reachable_forward st broke st1)
  from reachable_inv[OF reachable_forward(1) assms(2,3)] have inv: "engine_inv n start st" by simp
  show ?case
  proof (cases broke)
    case True
    then show ?thesis by simp
  next
    case False
    with reachable_forward have "forward_step n st = Inr (False, st1)" "lazy_engine n st" by simp_all
    from forward_step_lazy[OF inv this(2) reachable_forward(2) this(1)] show ?thesis by simp
  qed
next
  case (reachable_backward st1 broke st2)
  from reachable_inv[OF reachable_backward(1) assms(2,3)]
  have inv: "engine_inv n start st1" and ne: "open_backward st1 \<noteq> []" by simp_all
  show ?case
  proof (cases broke)
    case True
    then show ?thesis by simp
  next
    case False
    with reachable_backward have "backward_step n st1 = Inr (False, st2)" "lazy_engine n st1"
      by simp_all
    from backward_step_lazy[OF inv this(2) ne this(1)] show ?thesis by simp
  qed
next
  case (reachable_exit st)
  then show ?case by simp
qed

lemma after_iterations_reachable:
  assumes "after_iterations n k st0 = Some st" "reachable n start Head st0"
  shows "reachable n start Head st"
  using assms
proof (induction k arbitrary: st0)
  case 0
  then show ?case by simp
next
  case (Suc k)
  from Suc.prems(1) have ne: "open_forward st0 \<noteq> []" "open_backward st0 \<noteq> []"
    by (auto split: if_splits)
  from Suc.prems(1) ne obtain st2 where it: "iteration n st0 = Inr (False, st2)"
    and rest: "after_iterations n k st2 = Some st"
    by (auto split: sum.splits if_splits)
  from it obtain st1 where f: "forward_step n st0 = Inr (False, st1)"
    and b: "backward_step n st1 = Inr (False, st2)"
    by (auto simp: iteration_def split: sum.splits if_splits)
  have "reachable n start Mid st1" using reachable_forward[OF Suc.prems(2) ne f] by simp
  then have "reachable n start Head st2" using reachable_backward[OF _ b] by simp
  from Suc.IH[OF rest this] show ?case .
qed

lemma for_each_relax_pushed:
  assumes "for_each (relax n cur) acts (op, cf, g, c) = Inr (op', cf', g', c')"
    "g cur = Some gc" "available_actions n cur = Inr actions" "set acts \<subseteq> set actions"
  shows "\<exists>pushed. op' = op @ pushed \<and>
           (\<forall>e \<in> set pushed. fst e = int (gc + 1) + manhattan_distance n (snd e) \<and>
                               legal_move n cur (snd e))"
  using assms(1,2,4)
proof (induction acts arbitrary: op cf g c)
  case Nil
  then show ?case by simp
next
  case (Cons a acts)
  from Cons.prems(1) obtain d1 where s1: "relax n cur a (op, cf, g, c) = Inr d1"
    and rest: "for_each (relax n cur) acts d1 = Inr (op', cf', g', c')"
    by (auto split: sum.splits)
  from s1 obtain nb where nb: "do_action n cur a = Inr nb"
    by (cases "do_action n cur a") (auto simp: relax_def)
  have lm: "legal_move n cur nb" using nb Cons.prems(3) by (auto simp: legal_move_def assms(3))
  from s1 relax_relaxed[of n cur a nb g gc op cf c] nb Cons.prems(2)
  have d1: "d1 = relaxed n cur gc nb (op, cf, g, c)" by simp
  have sub: "set acts \<subseteq> set actions" using Cons.prems(3) by simp
  show ?case
  proof (cases rule: relaxed_cases[of n cur gc nb op cf g c])
    case same
    with d1 rest have "for_each (relax n cur) acts (op, cf, g, c) = Inr (op', cf', g', c')" by simp
    from Cons.IH[OF this Cons.prems(2) sub] show ?thesis .
  next
    case push
    let ?e = "(int (gc + 1) + manhattan_distance n nb, nb)"
    have "nb \<noteq> cur" using push(2) Cons.prems(2) by auto
    then have g1: "(g(nb \<mapsto> gc + 1)) cur = Some gc" using Cons.prems(2) by simp
    from d1 rest push(1) have "for_each (relax n cur) acts
        (op @ [?e], cf(nb \<mapsto> Some cur), g(nb \<mapsto> gc + 1), c + 1) = Inr (op', cf', g', c')" by simp
    from Cons.IH[OF this g1 sub] obtain pushed where
      p: "op' = (op @ [?e]) @ pushed"
         "\<forall>e \<in> set pushed. fst e = int (gc + 1) + manhattan_distance n (snd e) \<and>
                             legal_move n cur (snd e)" by blast
    have "op' = op @ (?e # pushed)" using p(1) by simp
    moreover have "\<forall>e \<in> set (?e # pushed). fst e = int (gc + 1) + manhattan_distance n (snd e) \<and>
                             legal_move n cur (snd e)" using p(2) lm by simp
    ultimately show ?thesis by blast
  qed
qed

lemma expand_pushed:
  assumes "expand n cur (op, cf, g, c) = Inr (op', cf', g', c')" "g cur = Some gc"
  shows "\<exists>pushed. op' = op @ pushed \<and>
           (\<forall>e \<in> set pushed. fst e = int (gc + 1) + manhattan_distance n (snd e) \<and>
                               legal_move n cur (snd e))"
proof -
  from assms(1) obtain actions where acts: "available_actions n cur = Inr actions"
    and run: "for_each (relax n cur) actions (op, cf, g, c) = Inr (op', cf', g', c')"
    by (auto simp: expand_def split: sum.splits)
  show ?thesis by (rule for_each_relax_pushed[OF run assms(2) acts]) simp
qed

lemma backward_step_pushed:
  assumes pop: "heappop (open_backward st) = Inr ((f, current), rest)"
    and g: "g_score_backward st current = Some g_current"
    and step: "backward_step n st = Inr (broke, st')"
  shows "\<exists>pushed. open_backward st' = rest @ pushed \<and>
           (\<forall>e \<in> set pushed. fst e = int (g_current + 1) + manhattan_distance n (snd e) \<and>
                               legal_move n current (snd e))"
proof -
  have ne: "open_backward st \<noteq> []" using pop by (cases "open_backward st") auto
  have len: "length current = n * n"
    using step ne pop by (auto simp: backward_step_def split: if_splits)
  note unfold = backward_step_pop[OF pop len]
  show ?thesis
  proof (cases "current \<in> explored_forward st")
    case True
    with unfold step have "open_backward st' = rest" by auto
    then show ?thesis by simp
  next
    case False
    with unfold step obtain op cf g' c where
      ex: "expand n current (rest, came_from_backward st, g_score_backward st, nodes_evaluated st) =
             Inr (op, cf, g', c)"
      and st': "open_backward st' = op"
      by (auto split: sum.splits)
    from expand_pushed[OF ex g] st' show ?thesis by simp
  qed
qed

lemma forward_step_pushed:
  assumes pop: "heappop (open_forward st) = Inr ((f, current), rest)"
    and g: "g_score_forward st current = Some g_current"
    and step: "forward_step n st = Inr (broke, st')"
  shows "\<exists>pushed. open_forward st' = rest @ pushed \<and>
           (\<forall>e \<in> set pushed. fst e = int (g_current + 1) + manhattan_distance n (snd e) \<and>
                               legal_move n current (snd e))"
proof -
  have ne: "open_forward st \<noteq> []" using pop by (cases "open_forward st") auto
  have len: "length current = n * n"
    using step ne pop by (auto simp: forward_step_def split: if_splits)
  note unfold = forward_step_pop[OF pop len]
  show ?thesis
  proof (cases "current \<in> explored_backward st")
    case True
    with unfold step have "open_forward st' = rest" by auto
    then show ?thesis by simp
  next
    case False
    with unfold step obtain op cf g' c where
      ex: "expand n current (rest, came_from_forward st, g_score_forward st, nodes_evaluated st) =
             Inr (op, cf, g', c)"
      and st': "open_forward st' = op"
      by (auto split: sum.splits)
    from expand_pushed[OF ex g] st' show ?thesis by simp
  qed
qed

lemma eval_first_iteration:
  "case forward_step 2 (initial_engine 2 [1, 0, 3, 2]) of
     Inl e \<Rightarrow> False
   | Inr (b1, st1) \<Rightarrow>
       \<not> b1 \<and> heappop (open_backward st1) = Inr ((0, [1, 2, 3, 0]), []) \<and>
       g_score_backward st1 [1, 2, 3, 0] = Some 0 \<and>
       (case backward_step 2 st1 of
          Inl e \<Rightarrow> False
        | Inr (b2, st2) \<Rightarrow> \<not> b2 \<and> open_backward st2 = [(2, [1, 0, 3, 2]), (2, [1, 2, 0, 3])])"
  by code_simp

lemma eval_stale_pop:
  "case after_iterations 3 12 (initial_engine 3 [0, 4, 3, 2, 1, 6, 7, 8, 5]) of
     None \<Rightarrow> False
   | Some st \<Rightarrow>
       open_backward st \<noteq> [] \<and>
       heappop (open_forward st) =
         Inr ((10, [1, 0, 3, 4, 2, 6, 7, 8, 5]), remove1 (10, [1, 0, 3, 4, 2, 6, 7, 8, 5]) (open_forward st)) \<and>
       g_score_forward st [1, 0, 3, 4, 2, 6, 7, 8, 5] = Some 5"
  by code_simp

lemma eval_stale_distance: "manhattan_distance 3 [1, 0, 3, 4, 2, 6, 7, 8, 5] = 3"
  by code_simp

lemma valid_example_3: "valid_state 3 [0, 4, 3, 2, 1, 6, 7, 8, 5]"
  by code_simp

lemma available_actions_order:
  assumes "valid_state n s" "0 < n"
  shows "\<exists>x y. x < n \<and> y < n \<and> s ! (x * n + y) = 0 \<and>
           available_actions n s =
             Inr (filter (\<lambda>a. adjacent n (pos1 a) (pos2 a))
                    [Action (x, y) (x - 1, y), Action (x, y) (x + 1, y),
                     Action (x, y) (x, y - 1), Action (x, y) (x, y + 1)])"
proof -
  obtain j where j: "j < n * n" "s ! j = 0" "argwhere_zero s = [j]"
    using valid_state_blank[OF assms] by blast
  let ?x = "j div n" and ?y = "j mod n"
  have x: "?x < n" using assms(2) j(1) by (simp add: less_mult_imp_div_less)
  have y: "?y < n" using assms(2) by simp
  have cell: "s ! (?x * n + ?y) = 0" using j(2) by simp
  have "available_actions n s =
          Inr (filter (\<lambda>a. adjacent n (pos1 a) (pos2 a))
                 [Action (?x, ?y) (?x - 1, ?y), Action (?x, ?y) (?x + 1, ?y),
                  Action (?x, ?y) (?x, ?y - 1), Action (?x, ?y) (?x, ?y + 1)])"
    using x y j(3) by (auto simp: available_actions_def Let_def adjacent_def less_imp_diff_less)
  with x y cell show ?thesis by blast
qed

lemma digits_sum:
  fixes v :: int
  shows "v mod 256 ^ k = (\<Sum>i<k. (v div 256 ^ i mod 256) * 256 ^ i)"
proof (induction k)
  case 0
  then show ?case by simp
next
  case (Suc k)
  have "v mod 256 ^ Suc k = v mod (256 ^ k * 256)" by (simp add: mult.commute)
  also have "\<dots> = 256 ^ k * (v div 256 ^ k mod 256) + v mod 256 ^ k"
    by (rule zmod_zmult2_eq) simp
  finally show ?case using Suc by (simp add: mult.commute)
qed

lemma int64_bytes_inj:
  assumes "int64_bytes v = int64_bytes w"
  shows "v mod 2 ^ 64 = w mod 2 ^ 64"
proof -
  define V where "V = v mod 2 ^ 64"
  define W where "W = w mod 2 ^ 64"
  have p: "(2::int) ^ 64 = 256 ^ 8" by simp
  have V: "0 \<le> V" "V < 256 ^ 8" unfolding V_def p[symmetric] by simp_all
  have W: "0 \<le> W" "W < 256 ^ 8" unfolding W_def p[symmetric] by simp_all
  have eq: "map (\<lambda>i. nat (V div 256 ^ i mod 256)) [0..<8] = map (\<lambda>i. nat (W div 256 ^ i mod 256)) [0..<8]"
    using assms unfolding int64_bytes_def V_def W_def .
  have d: "V div 256 ^ i mod 256 = W div 256 ^ i mod 256" if "i < 8" for i
  proof -
    from eq have "\<forall>i \<in> set [0..<8]. nat (V div 256 ^ i mod 256) = nat (W div 256 ^ i mod 256)"
      by (simp only: map_eq_conv)
    with that have "nat (V div 256 ^ i mod 256) = nat (W div 256 ^ i mod 256)" by simp
    moreover have "0 \<le> V div 256 ^ i mod 256" "0 \<le> W div 256 ^ i mod 256"
      by (rule pos_mod_sign, simp)+
    ultimately show ?thesis by (simp only: eq_nat_nat_iff)
  qed
  have "V mod 256 ^ 8 = W mod 256 ^ 8"
    unfolding digits_sum[of _ 8] by (rule sum.cong) (simp_all only: d lessThan_iff)
  moreover have "V mod 256 ^ 8 = V" using V by (rule mod_pos_pos_trivial)
  moreover have "W mod 256 ^ 8 = W" using W by (rule mod_pos_pos_trivial)
  ultimately show ?thesis unfolding V_def W_def by simp
qed

lemma length_int64_bytes: "length (int64_bytes v) = 8"
  by (simp add: int64_bytes_def)

lemma tobytes_inj:
  assumes "length s1 = length s2" "tobytes s1 = tobytes s2"
  shows "map (\<lambda>v. v mod 2 ^ 64) s1 = map (\<lambda>v. v mod 2 ^ 64) s2"
  using assms
proof (induction s1 s2 rule: list_induct2)
  case Nil
  then show ?case by simp
next
  case (Cons x xs y ys)
  from Cons.prems have "int64_bytes x @ tobytes xs = int64_bytes y @ tobytes ys"
    by (simp add: tobytes_def)
  then have "int64_bytes x = int64_bytes y" "tobytes xs = tobytes ys"
    by (simp_all add: length_int64_bytes)
  then have a: "x mod 2 ^ 64 = y mod 2 ^ 64"
    and b: "map (\<lambda>v. v mod 2 ^ 64) xs = map (\<lambda>v. v mod 2 ^ 64) ys"
    using int64_bytes_inj[of x y] Cons.IH by blast+
  show ?case by (simp only: list.map a b)
qed

lemma valid_tobytes_inj:
  assumes "valid_state n k1" "valid_state n k2" "n * n \<le> 2 ^ 63" "tobytes k1 = tobytes k2"
  shows "k1 = k2"
proof (rule nth_equalityI)
  show len: "length k1 = length k2"
    using assms(1,2) by (simp add: valid_state_length)
  fix i assume i: "i < length k1"
  then have i': "i < n * n" using assms(1) by (simp add: valid_state_length)
  have m: "map (\<lambda>v. v mod 2 ^ 64) k1 ! i = map (\<lambda>v. v mod 2 ^ 64) k2 ! i"
    using tobytes_inj[OF len assms(4)] by simp
  have b: "int (n * n) \<le> 2 ^ 64"
  proof -
    have "int (n * n) \<le> int (2 ^ 63)" using assms(3) by (simp only: of_nat_le_iff)
    then show ?thesis by simp
  qed
  from valid_state_range[OF assms(1) i'] b have 1: "k1 ! i mod 2 ^ 64 = k1 ! i"
    by (intro mod_pos_pos_trivial) linarith+
  from valid_state_range[OF assms(2) i'] b have 2: "k2 ! i mod 2 ^ 64 = k2 ! i"
    by (intro mod_pos_pos_trivial) linarith+
  from m i len have 3: "k1 ! i mod 2 ^ 64 = k2 ! i mod 2 ^ 64" by (simp only: nth_map)
  have "k1 ! i = k1 ! i mod 2 ^ 64" by (rule 1[symmetric])
  also have "\<dots> = k2 ! i mod 2 ^ 64" by (rule 3)
  also have "\<dots> = k2 ! i" by (rule 2)
  finally show "k1 ! i = k2 ! i" .
qed

lemma same_but_layout_refl: "same_but_layout st st"
  by (simp add: same_but_layout_def)

lemma reconstruct_layout: "same_but_layout st st' \<Longrightarrow> reconstruct st' = reconstruct st"
  unfolding same_but_layout_def reconstruct_def by (elim conjE) (simp only:)

lemma bidirectional_a_star_reconstruct:
  assumes "length (goal_state n) = n * n" "length s = n * n"
    "main_loop n (initial_engine n s) = Some (Inr st)"
  shows "bidirectional_a_star n s = map_option Inr (reconstruct st)"
  using assms by (simp add: bidirectional_a_star_def reconstruct_def split: option.splits)

lemma relax_frontier_indep:
  assumes "relax n k a (op1, cf, g, c) = Inr (op1', cf', g', c')"
  shows "\<exists>p. op1' = op1 @ p \<and> (\<forall>op2. relax n k a (op2, cf, g, c) = Inr (op2 @ p, cf', g', c'))"
proof (cases "do_action n k a")
  case (Inl e)
  with assms show ?thesis by (simp add: relax_def)
next
  case (Inr nb)
  show ?thesis
  proof (cases "g k")
    case None
    with assms Inr show ?thesis by (simp add: relax_def)
  next
    case (Some gk)
    show ?thesis
    proof (cases "g nb = None \<or> gk + 1 < the (g nb)")
      case True
      with assms Inr Some have "op1' = op1 @ [(int (gk + 1) + manhattan_distance n nb, nb)]"
        "cf' = cf(nb \<mapsto> Some k)" "g' = g(nb \<mapsto> gk + 1)" "c' = c + 1"
        by (simp_all add: relax_def heappush_def Let_def)
      moreover have "relax n k a (op2, cf, g, c) =
          Inr (op2 @ [(int (gk + 1) + manhattan_distance n nb, nb)], cf(nb \<mapsto> Some k),
               g(nb \<mapsto> gk + 1), c + 1)" for op2
        using True Inr Some by (simp add: relax_def heappush_def Let_def)
      ultimately show ?thesis by blast
    next
      case False
      with assms Inr Some have "op1' = op1 @ []" "cf' = cf" "g' = g" "c' = c"
        by (auto simp: relax_def Let_def)
      moreover have "relax n k a (op2, cf, g, c) = Inr (op2 @ [], cf, g, c)" for op2
        using False Inr Some by (auto simp: relax_def Let_def)
      ultimately show ?thesis by blast
    qed
  qed
qed

lemma for_each_relax_indep:
  assumes "for_each (relax n k) acts (op1, cf, g, c) = Inr (op1', cf', g', c')"
  shows "\<exists>p. op1' = op1 @ p \<and>
           (\<forall>op2. for_each (relax n k) acts (op2, cf, g, c) = Inr (op2 @ p, cf', g', c'))"
  using assms
proof (induction acts arbitrary: op1 cf g c)
  case Nil
  then have "op1' = op1 @ []" "cf' = cf" "g' = g" "c' = c" by simp_all
  then show ?case by (intro exI[of _ "[]"]) simp
next
  case (Cons a acts)
  from Cons.prems obtain d1 where s1: "relax n k a (op1, cf, g, c) = Inr d1"
    and rest: "for_each (relax n k) acts d1 = Inr (op1', cf', g', c')"
    by (auto split: sum.splits)
  obtain o1 cf1 g1 c1 where d1: "d1 = (o1, cf1, g1, c1)" by (cases d1)
  from relax_frontier_indep[OF s1[unfolded d1]] obtain p where
    p: "o1 = op1 @ p" "\<And>op2. relax n k a (op2, cf, g, c) = Inr (op2 @ p, cf1, g1, c1)" by blast
  from Cons.IH[OF rest[unfolded d1]] obtain q where
    q: "op1' = o1 @ q"
       "\<And>op2. for_each (relax n k) acts (op2, cf1, g1, c1) = Inr (op2 @ q, cf', g', c')" by blast
  have "op1' = op1 @ (p @ q)" using p(1) q(1) by simp
  moreover have "for_each (relax n k) (a # acts) (op2, cf, g, c) = Inr (op2 @ (p @ q), cf', g', c')"
    for op2 using p(2)[of op2] q(2)[of "op2 @ p"] by simp
  ultimately show ?case by blast
qed

lemma expand_frontier_indep:
  assumes "expand n k (op1, cf, g, c) = Inr (op1', cf', g', c')"
  shows "\<exists>p. op1' = op1 @ p \<and> (\<forall>op2. expand n k (op2, cf, g, c) = Inr (op2 @ p, cf', g', c'))"
proof -
  from assms obtain actions where acts: "available_actions n k = Inr actions"
    and run: "for_each (relax n k) actions (op1, cf, g, c) = Inr (op1', cf', g', c')"
    by (auto simp: expand_def split: sum.splits)
  from for_each_relax_indep[OF run] acts show ?thesis by (simp add: expand_def)
qed

lemma pops_unique:
  assumes "pops h' (f, k) rest'" "mset h' = mset h" "n * n \<le> 2 ^ 63"
    "\<forall>e \<in> set h. valid_state n (snd e)"
  shows "heappop h = Inr ((f, k), remove1 (f, k) h) \<and> mset (remove1 (f, k) h) = mset rest'"
proof -
  have sets: "set h' = set h" by (rule mset_eq_setD[OF assms(2)])
  from assms(1) have mem: "(f, k) \<in> set h" and least: "\<forall>x \<in> set h. \<not> entry_less x (f, k)"
    and rest: "mset rest' = mset h - {#(f, k)#}"
    using sets assms(2) by (simp_all add: pops_def)
  have "h \<noteq> []" using mem by auto
  from heappop_nonempty[OF this] obtain e where
    pop: "heappop h = Inr (e, remove1 e h)" and e_in: "e \<in> set h" by blast
  from heappop_least[OF pop] have e_least: "\<forall>x \<in> set h. \<not> entry_less x e" by simp
  from least e_in have "\<not> entry_less e (f, k)" by blast
  moreover from e_least mem have "\<not> entry_less (f, k) e" by blast
  ultimately have "entry_key e = entry_key (f, k)" by (simp add: entry_less_iff)
  then have f: "fst e = f" and b: "tobytes (snd e) = tobytes k" by (simp_all add: entry_key_def)
  have "valid_state n (snd e)" "valid_state n k" using assms(4) e_in mem by auto
  from valid_tobytes_inj[OF this assms(3) b] f have "e = (f, k)" by (cases e) simp
  with pop rest show ?thesis by (simp only: mset_remove1)
qed

lemma same_but_layoutD:
  assumes "same_but_layout st st'"
  shows "mset (open_forward st') = mset (open_forward st)"
    "mset (open_backward st') = mset (open_backward st)"
    "came_from_forward st' = came_from_forward st"
    "g_score_forward st' = g_score_forward st"
    "came_from_backward st' = came_from_backward st"
    "g_score_backward st' = g_score_backward st"
    "explored_forward st' = explored_forward st"
    "explored_backward st' = explored_backward st"
    "nodes_evaluated st' = nodes_evaluated st"
    "meeting_node st' = meeting_node st"
  using assms by (simp_all add: same_but_layout_def)

lemma frontier_keys_valid:
  assumes "dir_inv n root open_set came_from g_score"
  shows "\<forall>e \<in> set open_set. valid_state n (snd e)"
  using dir_invD(3,4)[OF assms] by blast

lemma forward_half_sim:
  assumes inv: "engine_inv n start st" and bound: "n * n \<le> 2 ^ 63"
    and eq: "same_but_layout st st'" and h: "forward_half n st' b st1'"
  shows "\<exists>st1. forward_step n st = Inr (b, st1) \<and> same_but_layout st1 st1'"
proof -
  note E = same_but_layoutD[OF eq]
  from inv have fi: "dir_inv n start (open_forward st) (came_from_forward st) (g_score_forward st)"
    by (simp add: engine_inv_def)
  note valid = frontier_keys_valid[OF fi]
  from h show ?thesis
  proof (cases rule: forward_half.cases)
    case (forward_meet f k rest)
    from pops_unique[OF forward_meet(3) E(1) bound valid]
    have pop: "heappop (open_forward st) = Inr ((f, k), remove1 (f, k) (open_forward st))"
      and ms: "mset (remove1 (f, k) (open_forward st)) = mset rest" by simp_all
    have k: "k \<in> explored_backward st" using forward_meet(5) E(8) by simp
    have "forward_step n st = Inr (True, st\<lparr>open_forward := remove1 (f, k) (open_forward st),
        explored_forward := insert k (explored_forward st), meeting_node := Some k\<rparr>)"
      using forward_step_pop[OF pop forward_meet(4)] k by simp
    moreover have "same_but_layout
        (st\<lparr>open_forward := remove1 (f, k) (open_forward st),
            explored_forward := insert k (explored_forward st), meeting_node := Some k\<rparr>) st1'"
      unfolding forward_meet(2) using E ms by (simp add: same_but_layout_def)
    ultimately show ?thesis using forward_meet(1) by blast
  next
    case (forward_expand f k rest op cf g c layout)
    from pops_unique[OF forward_expand(3) E(1) bound valid]
    have pop: "heappop (open_forward st) = Inr ((f, k), remove1 (f, k) (open_forward st))"
      and ms: "mset (remove1 (f, k) (open_forward st)) = mset rest" by simp_all
    have k: "k \<notin> explored_backward st" using forward_expand(5) E(8) by simp
    have ex: "expand n k (rest, came_from_forward st, g_score_forward st, nodes_evaluated st) =
                Inr (op, cf, g, c)"
      using forward_expand(6) E(3,4,9) by simp
    from expand_frontier_indep[OF ex] obtain p where
      p: "op = rest @ p"
         "\<And>op2. expand n k (op2, came_from_forward st, g_score_forward st, nodes_evaluated st) =
                  Inr (op2 @ p, cf, g, c)" by blast
    let ?R = "remove1 (f, k) (open_forward st)"
    have "forward_step n st = Inr (False, st\<lparr>open_forward := ?R @ p,
        explored_forward := insert k (explored_forward st),
        came_from_forward := cf, g_score_forward := g, nodes_evaluated := c\<rparr>)"
      using forward_step_pop[OF pop forward_expand(4)] k p(2)[of ?R] by simp
    moreover have "mset layout = mset (?R @ p)" using forward_expand(7) p(1) ms by simp
    then have "same_but_layout
        (st\<lparr>open_forward := ?R @ p, explored_forward := insert k (explored_forward st),
            came_from_forward := cf, g_score_forward := g, nodes_evaluated := c\<rparr>) st1'"
      unfolding forward_expand(2) using E by (simp add: same_but_layout_def)
    ultimately show ?thesis using forward_expand(1) by blast
  qed
qed

lemma backward_half_sim:
  assumes inv: "engine_inv n start st" and bound: "n * n \<le> 2 ^ 63"
    and eq: "same_but_layout st st'" and h: "backward_half n st' b st1'"
  shows "\<exists>st1. backward_step n st = Inr (b, st1) \<and> same_but_layout st1 st1'"
proof -
  note E = same_but_layoutD[OF eq]
  from inv have bi: "dir_inv n (goal_state n) (open_backward st) (came_from_backward st)
      (g_score_backward st)"
    by (simp add: engine_inv_def)
  note valid = frontier_keys_valid[OF bi]
  from h show ?thesis
  proof (cases rule: backward_half.cases)
    case (backward_meet f k rest)
    from pops_unique[OF backward_meet(3) E(2) bound valid]
    have pop: "heappop (open_backward st) = Inr ((f, k), remove1 (f, k) (open_backward st))"
      and ms: "mset (remove1 (f, k) (open_backward st)) = mset rest" by simp_all
    have k: "k \<in> explored_forward st" using backward_meet(5) E(7) by simp
    have "backward_step n st = Inr (True, st\<lparr>open_backward := remove1 (f, k) (open_backward st),
        explored_backward := insert k (explored_backward st), meeting_node := Some k\<rparr>)"
      using backward_step_pop[OF pop backward_meet(4)] k by simp
    moreover have "same_but_layout
        (st\<lparr>open_backward := remove1 (f, k) (open_backward st),
            explored_backward := insert k (explored_backward st), meeting_node := Some k\<rparr>) st1'"
      unfolding backward_meet(2) using E ms by (simp add: same_but_layout_def)
    ultimately show ?thesis using backward_meet(1) by blast
  next
    case (backward_expand f k rest op cf g c layout)
    from pops_unique[OF backward_expand(3) E(2) bound valid]
    have pop: "heappop (open_backward st) = Inr ((f, k), remove1 (f, k) (open_backward st))"
      and ms: "mset (remove1 (f, k) (open_backward st)) = mset rest" by simp_all
    have k: "k \<notin> explored_forward st" using backward_expand(5) E(7) by simp
    have ex: "expand n k (rest, came_from_backward st, g_score_backward st, nodes_evaluated st) =
                Inr (op, cf, g, c)"
      using backward_expand(6) E(5,6,9) by simp
    from expand_frontier_indep[OF ex] obtain p where
      p: "op = rest @ p"
         "\<And>op2. expand n k (op2, came_from_backward st, g_score_backward st, nodes_evaluated st) =
                  Inr (op2 @ p, cf, g, c)" by blast
    let ?R = "remove1 (f, k) (open_backward st)"
    have "backward_step n st = Inr (False, st\<lparr>open_backward := ?R @ p,
        explored_backward := insert k (explored_backward st),
        came_from_backward := cf, g_score_backward := g, nodes_evaluated := c\<rparr>)"
      using backward_step_pop[OF pop backward_expand(4)] k p(2)[of ?R] by simp
    moreover have "mset layout = mset (?R @ p)" using backward_expand(7) p(1) ms by simp
    then have "same_but_layout
        (st\<lparr>open_backward := ?R @ p, explored_backward := insert k (explored_backward st),
            came_from_backward := cf, g_score_backward := g, nodes_evaluated := c\<rparr>) st1'"
      unfolding backward_expand(2) using E by (simp add: same_but_layout_def)
    ultimately show ?thesis using backward_expand(1) by blast
  qed
qed

lemma layout_nonempty:
  assumes "same_but_layout st st'"
  shows "open_forward st = [] \<longleftrightarrow> open_forward st' = []"
    "open_backward st = [] \<longleftrightarrow> open_backward st' = []"
  using same_but_layoutD(1,2)[OF assms] by (metis mset_zero_iff)+

lemma runs_sim:
  assumes "runs n st' fin'" "reachable n start Head st" "same_but_layout st st'"
    "valid_state n start" "0 < n" "n * n \<le> 2 ^ 63"
  shows "\<exists>fin. main_loop n st = Some (Inr fin) \<and> same_but_layout fin fin'"
  using assms(1,2,3)
proof (induction arbitrary: st rule: runs.induct)
  case (runs_exit st')
  from runs_exit(1) layout_nonempty[OF runs_exit(3)]
  have "open_forward st = [] \<or> open_backward st = []" by blast
  then have "main_loop n st = Some (Inr st)" by (subst main_loop.simps) auto
  with runs_exit(3) show ?case by (intro exI[of _ st]) simp
next
  case (runs_break_forward st' st1')
  have inv: "engine_inv n start st" using reachable_inv[OF runs_break_forward(4) assms(4,5)] by simp
  have ne: "open_forward st \<noteq> []" "open_backward st \<noteq> []"
    using runs_break_forward(1,2) layout_nonempty[OF runs_break_forward(5)] by simp_all
  from forward_half_sim[OF inv assms(6) runs_break_forward(5) runs_break_forward(3)]
  obtain st1 where f: "forward_step n st = Inr (True, st1)" and e1: "same_but_layout st1 st1'"
    by blast
  have "main_loop n st = Some (Inr st1)"
    using ne f by (subst main_loop.simps) (simp add: iteration_def)
  with e1 show ?case by (intro exI[of _ st1]) simp
next
  case (runs_break_backward st' st1' st2')
  have inv: "engine_inv n start st" using reachable_inv[OF runs_break_backward(5) assms(4,5)] by simp
  have ne: "open_forward st \<noteq> []" "open_backward st \<noteq> []"
    using runs_break_backward(1,2) layout_nonempty[OF runs_break_backward(6)] by simp_all
  from forward_half_sim[OF inv assms(6) runs_break_backward(6) runs_break_backward(3)]
  obtain st1 where f: "forward_step n st = Inr (False, st1)" and e1: "same_but_layout st1 st1'"
    by blast
  have r1: "reachable n start Mid st1"
    using reachable_forward[OF runs_break_backward(5) ne f] by simp
  have inv1: "engine_inv n start st1" using reachable_inv[OF r1 assms(4,5)] by simp
  from backward_half_sim[OF inv1 assms(6) e1 runs_break_backward(4)]
  obtain st2 where b: "backward_step n st1 = Inr (True, st2)" and e2: "same_but_layout st2 st2'"
    by blast
  have "main_loop n st = Some (Inr st2)"
    using ne f b by (subst main_loop.simps) (simp add: iteration_def)
  with e2 show ?case by (intro exI[of _ st2]) simp
next
  case (runs_continue st' st1' st2' st3')
  have inv: "engine_inv n start st" using reachable_inv[OF runs_continue(7) assms(4,5)] by simp
  have ne: "open_forward st \<noteq> []" "open_backward st \<noteq> []"
    using runs_continue(1,2) layout_nonempty[OF runs_continue(8)] by simp_all
  from forward_half_sim[OF inv assms(6) runs_continue(8) runs_continue(3)]
  obtain st1 where f: "forward_step n st = Inr (False, st1)" and e1: "same_but_layout st1 st1'"
    by blast
  have r1: "reachable n start Mid st1"
    using reachable_forward[OF runs_continue(7) ne f] by simp
  have inv1: "engine_inv n start st1" using reachable_inv[OF r1 assms(4,5)] by simp
  from backward_half_sim[OF inv1 assms(6) e1 runs_continue(4)]
  obtain st2 where b: "backward_step n st1 = Inr (False, st2)" and e2: "same_but_layout st2 st2'"
    by blast
  have r2: "reachable n start Head st2" using reachable_backward[OF r1 b] by simp
  from runs_continue(6)[OF r2 e2] obtain fin where
    fin: "main_loop n st2 = Some (Inr fin)" "same_but_layout fin st3'" by blast
  have "main_loop n st = main_loop n st2"
    using ne f b by (subst main_loop.simps) (simp add: iteration_def)
  with fin show ?case by (intro exI[of _ fin]) simp
qed

lemma forward_step_half:
  assumes inv: "engine_inv n start st" and ne: "open_forward st \<noteq> []"
    and step: "forward_step n st = Inr (b, st1)"
  shows "forward_half n st b st1"
proof -
  from inv have fi: "dir_inv n start (open_forward st) (came_from_forward st) (g_score_forward st)"
    by (simp add: engine_inv_def)
  obtain e where pop: "heappop (open_forward st) = Inr (e, remove1 e (open_forward st))"
    using heappop_nonempty[OF ne] by blast
  obtain f k where e: "e = (f, k)" by (cases e)
  from heappop_least[OF pop] have p: "pops (open_forward st) (f, k) (remove1 (f, k) (open_forward st))"
    unfolding e by (simp add: pops_def)
  then have "(f, k) \<in> set (open_forward st)" by (simp add: pops_def)
  then have "valid_state n k" using frontier_keys_valid[OF fi] by auto
  then have len: "length k = n * n" by (rule valid_state_length)
  note unfold = forward_step_pop[OF pop[unfolded e] len]
  show ?thesis
  proof (cases "k \<in> explored_backward st")
    case True
    with unfold step have "b" and "st1 = st\<lparr>open_forward := remove1 (f, k) (open_forward st),
        explored_forward := insert k (explored_forward st), meeting_node := Some k\<rparr>" by simp_all
    with forward_meet[OF p len True] show ?thesis by simp
  next
    case False
    with unfold step obtain op cf g c where
      ex: "expand n k (remove1 (f, k) (open_forward st), came_from_forward st, g_score_forward st,
             nodes_evaluated st) = Inr (op, cf, g, c)"
      and r: "\<not> b" "st1 = st\<lparr>open_forward := op, explored_forward := insert k (explored_forward st),
          came_from_forward := cf, g_score_forward := g, nodes_evaluated := c\<rparr>"
      by (auto split: sum.splits)
    from forward_expand[OF p len False ex, of op] r show ?thesis by simp
  qed
qed

lemma backward_step_half:
  assumes inv: "engine_inv n start st" and ne: "open_backward st \<noteq> []"
    and step: "backward_step n st = Inr (b, st1)"
  shows "backward_half n st b st1"
proof -
  from inv have bi: "dir_inv n (goal_state n) (open_backward st) (came_from_backward st)
      (g_score_backward st)"
    by (simp add: engine_inv_def)
  obtain e where pop: "heappop (open_backward st) = Inr (e, remove1 e (open_backward st))"
    using heappop_nonempty[OF ne] by blast
  obtain f k where e: "e = (f, k)" by (cases e)
  from heappop_least[OF pop] have p: "pops (open_backward st) (f, k) (remove1 (f, k) (open_backward st))"
    unfolding e by (simp add: pops_def)
  then have "(f, k) \<in> set (open_backward st)" by (simp add: pops_def)
  then have "valid_state n k" using frontier_keys_valid[OF bi] by auto
  then have len: "length k = n * n" by (rule valid_state_length)
  note unfold = backward_step_pop[OF pop[unfolded e] len]
  show ?thesis
  proof (cases "k \<in> explored_forward st")
    case True
    with unfold step have "b" and "st1 = st\<lparr>open_backward := remove1 (f, k) (open_backward st),
        explored_backward := insert k (explored_backward st), meeting_node := Some k\<rparr>" by simp_all
    with backward_meet[OF p len True] show ?thesis by simp
  next
    case False
    with unfold step obtain op cf g c where
      ex: "expand n k (remove1 (f, k) (open_backward st), came_from_backward st, g_score_backward st,
             nodes_evaluated st) = Inr (op, cf, g, c)"
      and r: "\<not> b" "st1 = st\<lparr>open_backward := op, explored_backward := insert k (explored_backward st),
          came_from_backward := cf, g_score_backward := g, nodes_evaluated := c\<rparr>"
      by (auto split: sum.splits)
    from backward_expand[OF p len False ex, of op] r show ?thesis by simp
  qed
qed

lemma main_loop_runs:
  assumes "reachable n start Head st" "valid_state n start" "0 < n"
  shows "\<exists>fin. main_loop n st = Some (Inr fin) \<and> runs n st fin"
  using assms(1)
proof (induction st rule: wf_induct_rule[OF wf_loop_rel[of n]])
  case (1 st)
  from reachable_inv[OF "1.prems" assms(2,3)]
  have inv: "engine_inv n start st" and nm: "meeting_node st = None" by simp_all
  show ?case
  proof (cases "open_forward st \<noteq> [] \<and> open_backward st \<noteq> []")
    case False
    then have ml: "main_loop n st = Some (Inr st)" by (subst main_loop.simps) auto
    have e: "open_forward st = [] \<or> open_backward st = []" using False by blast
    have "runs n st st" by (rule runs_exit[OF e])
    with ml show ?thesis by (intro exI[of _ st]) simp
  next
    case True
    then have ne: "open_forward st \<noteq> []" "open_backward st \<noteq> []" by simp_all
    from forward_step_total[OF inv nm ne(1)] obtain b1 st1 where
      f: "forward_step n st = Inr (b1, st1)" "engine_inv n start st1"
         "open_backward st1 = open_backward st"
         "\<not> b1 \<longrightarrow> meeting_node st1 = None \<and> (st1, st) \<in> loop_rel n" by blast
    have h1: "forward_half n st b1 st1" by (rule forward_step_half[OF inv ne(1) f(1)])
    have r1: "reachable n start (if b1 then Done else Mid) st1"
      by (rule reachable_forward[OF "1.prems" ne f(1)])
    show ?thesis
    proof (cases b1)
      case True
      have ml: "main_loop n st = Some (Inr st1)"
        using ne f(1) True by (subst main_loop.simps) (simp add: iteration_def)
      have "runs n st st1" using runs_break_forward[OF ne] h1 True by simp
      with ml show ?thesis by (intro exI[of _ st1]) simp
    next
      case False
      with f have nm1: "meeting_node st1 = None" and rel1: "(st1, st) \<in> loop_rel n" by auto
      have ne1: "open_backward st1 \<noteq> []" using f(3) ne(2) by simp
      from backward_step_total[OF f(2) nm1 ne1] obtain b2 st2 where
        b: "backward_step n st1 = Inr (b2, st2)"
           "fwd_measure n st2 = fwd_measure n st1" by blast
      have h1': "forward_half n st False st1" using h1 False by simp
      have h2: "backward_half n st1 b2 st2" by (rule backward_step_half[OF f(2) ne1 b(1)])
      have r2: "reachable n start (if b2 then Done else Head) st2"
        using reachable_backward[OF _ b(1)] r1 False by simp
      have it: "iteration n st = Inr (b2, st2)" using f(1) False b(1) by (simp add: iteration_def)
      show ?thesis
      proof (cases b2)
        case True
        have ml: "main_loop n st = Some (Inr st2)"
          using ne it True by (subst main_loop.simps) simp
        have "runs n st st2" using runs_break_backward[OF ne h1'] h2 True by simp
        with ml show ?thesis by (intro exI[of _ st2]) simp
      next
        case b2f: False
        have eq: "main_loop n st = main_loop n st2"
          using ne it b2f by (subst main_loop.simps) simp
        have rel2: "(st2, st) \<in> loop_rel n" using rel1 b(2) by (simp add: loop_rel_def)
        have hd2: "reachable n start Head st2" using r2 b2f by simp
        from "1.IH"[OF rel2 hd2] obtain fin where
          fin: "main_loop n st2 = Some (Inr fin)" "runs n st2 fin" by blast
        have h2': "backward_half n st1 False st2" using h2 b2f by simp
        have "runs n st fin" by (rule runs_continue[OF ne h1' h2' fin(2)])
        with fin(1) eq show ?thesis by (intro exI[of _ fin]) simp
      qed
    qed
  qed
qed

lemma search_run_exists:
  assumes "valid_state n s" "0 < n" "bidirectional_a_star n s = Some (Inr res)"
  shows "search_run n s res"
proof -
  have len: "length (goal_state n) = n * n" "length s = n * n"
    using goal_state_length[OF assms(2)] valid_state_length[OF assms(1)] by simp_all
  from main_loop_runs[OF reachable_init assms(1,2)] obtain fin where
    fin: "main_loop n (initial_engine n s) = Some (Inr fin)" "runs n (initial_engine n s) fin"
    by auto
  from bidirectional_a_star_reconstruct[OF len fin(1)] assms(3)
  have "reconstruct fin = Some res" by (cases "reconstruct fin") simp_all
  with fin(2) len show ?thesis unfolding search_run_def by (intro conjI exI[of _ fin])
qed

lemma search_run_unique:
  assumes "valid_state n s" "0 < n" "n * n \<le> 2 ^ 63" "search_run n s res"
  shows "bidirectional_a_star n s = Some (Inr res)"
proof -
  from assms(4) obtain fin' where len: "length (goal_state n) = n * n" "length s = n * n"
    and run: "runs n (initial_engine n s) fin'" and res: "reconstruct fin' = Some res"
    unfolding search_run_def by auto
  from runs_sim[OF run reachable_init same_but_layout_refl assms(1,2,3)] obtain fin where
    fin: "main_loop n (initial_engine n s) = Some (Inr fin)" "same_but_layout fin fin'" by auto
  have "reconstruct fin = Some res" using reconstruct_layout[OF fin(2)] res by simp
  with bidirectional_a_star_reconstruct[OF len fin(1)] show ?thesis by simp
qed

text \<open>
  The relation is not a function: a half of the loop body that pushes can leave the frontier
  in any arrangement of its entries. After the first forward half from the start state
  \<open>[1, 0, 3, 2]\<close> the frontier holds two entries, and both of their arrangements are
  results of that half.
\<close>

lemma forward_half_relayout:
  assumes "forward_half n st False st1" "mset layout = mset (open_forward st1)"
  shows "forward_half n st False (st1\<lparr>open_forward := layout\<rparr>)"
  using assms(1)
proof (cases rule: forward_half.cases)
  case (forward_expand f k rest op cf g c l)
  have ml: "mset layout = mset op" using assms(2) forward_expand(1,6) by simp
  have eq: "st\<lparr>open_forward := l, explored_forward := insert k (explored_forward st),
             came_from_forward := cf, g_score_forward := g, nodes_evaluated := c,
             open_forward := layout\<rparr> =
           st\<lparr>open_forward := layout, explored_forward := insert k (explored_forward st),
             came_from_forward := cf, g_score_forward := g, nodes_evaluated := c\<rparr>"
    by (cases st) simp
  from forward_half.forward_expand[OF forward_expand(2,3,4,5) ml] show ?thesis
    unfolding forward_expand(1) eq .
qed simp

lemma eval_first_forward:
  "case forward_step 2 (initial_engine 2 [1, 0, 3, 2]) of
     Inl e \<Rightarrow> False
   | Inr (b, st) \<Rightarrow> \<not> b \<and> open_forward st = [(1, [1, 2, 3, 0]), (3, [0, 1, 3, 2])]"
  by code_simp

lemma forward_half_two_layouts:
  "\<exists>st1. forward_step 2 (initial_engine 2 [1, 0, 3, 2]) = Inr (False, st1) \<and>
         forward_half 2 (initial_engine 2 [1, 0, 3, 2]) False st1 \<and>
         forward_half 2 (initial_engine 2 [1, 0, 3, 2]) False
           (st1\<lparr>open_forward := rev (open_forward st1)\<rparr>) \<and>
         rev (open_forward st1) \<noteq> open_forward st1"
proof -
  let ?s = "[1, 0, 3, 2] :: state"
  obtain b st1 where f0: "forward_step 2 (initial_engine 2 ?s) = Inr (b, st1)"
    using eval_first_forward by (cases "forward_step 2 (initial_engine 2 ?s)") auto
  with eval_first_forward have nb: "\<not> b"
    and fr: "open_forward st1 = [(1, [1, 2, 3, 0]), (3, [0, 1, 3, 2])]" by simp_all
  have f: "forward_step 2 (initial_engine 2 ?s) = Inr (False, st1)" using f0 nb by simp
  have inv: "engine_inv 2 ?s (initial_engine 2 ?s)"
    by (rule engine_inv_initial[OF valid_examples(2)]) simp
  have ne: "open_forward (initial_engine 2 ?s) \<noteq> []" by (simp add: initial_engine_fields)
  have h: "forward_half 2 (initial_engine 2 ?s) False st1"
    by (rule forward_step_half[OF inv ne f])
  have h': "forward_half 2 (initial_engine 2 ?s) False (st1\<lparr>open_forward := rev (open_forward st1)\<rparr>)"
    by (rule forward_half_relayout[OF h]) simp
  have d: "rev (open_forward st1) \<noteq> open_forward st1" unfolding fr by simp
  from f h h' d show ?thesis by (intro exI[of _ st1] conjI)
qed

section \<open>Claims\<close>

text \<open>
  C7. For a well-formed state of a board of dimension \<open>n \<ge> 1\<close>, the Manhattan distance is
  zero exactly when the state is the goal state (the values \<open>1..n\<^sup>2-1\<close> in row-major
  order, the blank last).
\<close>

theorem manhattan_distance_zero_iff_goal:
  assumes "valid_state n s" "0 < n"
  shows "manhattan_distance n s = 0 \<longleftrightarrow> s = goal_state n"
  using assms by (rule manhattan_distance_zero_goal)

theorem manhattan_distance_zero_iff_goal_witness:
  "valid_state 2 [1, 0, 3, 2] \<and> (0::nat) < 2 \<and>
   (manhattan_distance 2 [1, 0, 3, 2] = 0 \<longleftrightarrow> [1, 0, 3, 2] = goal_state 2) \<and>
   manhattan_distance 2 [1, 0, 3, 2] = 1"
proof -
  have v: "valid_state 2 [1, 0, 3, 2]" by (rule valid_examples)
  have "manhattan_distance 2 [1, 0, 3, 2] = 1" by code_simp
  with v manhattan_distance_zero_iff_goal[OF v] show ?thesis by simp
qed

text \<open>
  C6. For a well-formed state \<open>s\<close> and a move \<open>m\<close> of \<open>available_actions\<close>,
  \<open>do_action\<close> returns a state \<open>s'\<close> that is well-formed again, differs from \<open>s\<close> in
  exactly two cells \<open>i\<close> and \<open>j\<close>, where \<open>i\<close> held the blank of \<open>s\<close>, and has its only blank
  at \<open>j\<close>. In the store of arrays the result is a new array, and every array that existed
  before the call, the input among them, is unchanged.
\<close>

theorem do_action_preserves_puzzle:
  assumes "valid_state n s" "0 < n" "available_actions n s = Inr actions" "m \<in> set actions"
  shows "\<exists>s' i j. do_action n s m = Inr s' \<and> valid_state n s' \<and> length s' = length s \<and>
           i \<noteq> j \<and> s ! i = 0 \<and> {k. k < length s \<and> s' ! k \<noteq> s ! k} = {i, j} \<and>
           argwhere_zero s' = [j] \<and>
           (\<forall>st a. a < length st \<and> st ! a = s \<longrightarrow>
              (\<exists>st'. do_action_store n st a m = Inr (st', length st) \<and> st' ! length st = s' \<and>
                     (\<forall>b<length st. st' ! b = st ! b)))"
  using assms by (rule do_action_effect)

theorem do_action_preserves_puzzle_witness:
  "valid_state 2 [1, 2, 3, 0] \<and> (0::nat) < 2 \<and>
   available_actions 2 [1, 2, 3, 0] = Inr [Action (1, 1) (0, 1), Action (1, 1) (1, 0)] \<and>
   Action (1, 1) (0, 1) \<in> set [Action (1, 1) (0, 1), Action (1, 1) (1, 0)] \<and>
   do_action 2 [1, 2, 3, 0] (Action (1, 1) (0, 1)) = Inr [1, 0, 3, 2] \<and>
   valid_state 2 [1, 0, 3, 2] \<and>
   do_action_store 2 [[1, 2, 3, 0]] 0 (Action (1, 1) (0, 1)) = Inr ([[1, 2, 3, 0], [1, 0, 3, 2]], 1)"
proof -
  have v: "valid_state 2 [1, 2, 3, 0]" by (rule valid_examples)
  have a: "available_actions 2 [1, 2, 3, 0] = Inr [Action (1, 1) (0, 1), Action (1, 1) (1, 0)]"
    by code_simp
  have m: "Action (1, 1) (0, 1) \<in> set [Action (1, 1) (0, 1), Action (1, 1) (1, 0)]" by simp
  have d: "do_action 2 [1, 2, 3, 0] (Action (1, 1) (0, 1)) = Inr [1, 0, 3, 2]" by code_simp
  have s: "do_action_store 2 [[1, 2, 3, 0]] 0 (Action (1, 1) (0, 1)) = Inr ([[1, 2, 3, 0], [1, 0, 3, 2]], 1)"
    by code_simp
  from do_action_preserves_puzzle[OF v _ a m] d have "valid_state 2 [1, 0, 3, 2]" by auto
  with v a m d s show ?thesis by simp
qed

text \<open>
  C4. When the search from a well-formed start state succeeds, the returned path is not
  empty, begins with the start state, ends with the goal state, and every state of it is
  followed by a state that one legal move produces from it.
\<close>

theorem search_path_is_chain_of_moves:
  assumes "valid_state n start" "0 < n" "bidirectional_a_star n start = Some (Inr (Some path, c))"
  shows "path \<noteq> [] \<and> hd path = start \<and> last path = goal_state n \<and>
         successively (legal_move n) path"
proof -
  from bidirectional_a_star_reachable[OF assms(1,2)] obtain st res where
    r: "bidirectional_a_star n start = Some (Inr res)" "search_post n start st res" by auto
  from r(1) assms(3) have "res = (Some path, c)" by simp
  with r(2) show ?thesis by (auto simp: search_post_def)
qed

theorem search_path_is_chain_of_moves_witness:
  "valid_state 2 [1, 0, 3, 2] \<and> (0::nat) < 2 \<and>
   bidirectional_a_star 2 [1, 0, 3, 2] = Some (Inr (Some [[1, 0, 3, 2], [1, 2, 3, 0]], 4)) \<and>
   ([[1, 0, 3, 2], [1, 2, 3, 0]] \<noteq> ([] :: state list) \<and>
    hd [[1, 0, 3, 2], [1, 2, 3, 0]] = ([1, 0, 3, 2] :: state) \<and>
    last [[1, 0, 3, 2], [1, 2, 3, 0]] = goal_state 2 \<and>
    successively (legal_move 2) [[1, 0, 3, 2], [1, 2, 3, 0]])"
proof -
  have v: "valid_state 2 [1, 0, 3, 2]" by (rule valid_examples)
  have z: "(0::nat) < 2" by simp
  note c = search_path_is_chain_of_moves[OF v z eval_one_move]
  show ?thesis by (rule conjI[OF v conjI[OF z conjI[OF eval_one_move c]]])
qed

text \<open>
  C5. For every well-formed start state, solvable or not, the search terminates without
  raising: the main loop ends in some engine state, and the function returns a result with
  the loop's count of evaluated nodes. When no meeting state was found, a frontier is empty
  and the result is \<open>None\<close> with that count. The state space is finite, and a relaxation
  that pushes an entry for a state already scored gives it a strictly smaller score.
\<close>

theorem search_terminates:
  assumes "valid_state n start" "0 < n"
  shows "(\<exists>st r. main_loop n (initial_engine n start) = Some (Inr st) \<and>
            bidirectional_a_star n start = Some (Inr (r, nodes_evaluated st)) \<and>
            (meeting_node st = None \<longrightarrow>
               r = None \<and> (open_forward st = [] \<or> open_backward st = [])) \<and>
            (meeting_node st \<noteq> None \<longrightarrow> r \<noteq> None)) \<and>
         finite {s. valid_state n s} \<and>
         (\<forall>current a op cf g c op' cf' g' c'.
            relax n current a (op, cf, g, c) = Inr (op', cf', g', c') \<and> op' \<noteq> op \<longrightarrow>
            (\<exists>nb f t. op' = op @ [(f, nb)] \<and> g' nb = Some t \<and>
               (case g nb of None \<Rightarrow> True | Some old \<Rightarrow> t < old)))"
proof -
  from bidirectional_a_star_reachable[OF assms] obtain st res where
    r: "main_loop n (initial_engine n start) = Some (Inr st)"
       "bidirectional_a_star n start = Some (Inr res)" "search_post n start st res" by auto
  obtain r c where res: "res = (r, c)" by (cases res)
  from r(3) have c: "c = nodes_evaluated st"
    and none: "meeting_node st = None \<longrightarrow> r = None \<and> (open_forward st = [] \<or> open_backward st = [])"
    and some: "meeting_node st \<noteq> None \<longrightarrow> r \<noteq> None"
    by (auto simp: search_post_def res)
  have 1: "\<exists>st r. main_loop n (initial_engine n start) = Some (Inr st) \<and>
            bidirectional_a_star n start = Some (Inr (r, nodes_evaluated st)) \<and>
            (meeting_node st = None \<longrightarrow>
               r = None \<and> (open_forward st = [] \<or> open_backward st = [])) \<and>
            (meeting_node st \<noteq> None \<longrightarrow> r \<noteq> None)"
    using r(1,2) none some unfolding res c by (intro exI[of _ st] exI[of _ r]) simp
  have 2: "finite {s. valid_state n s}" by (rule finite_valid_states)
  have 3: "\<forall>current a op cf g c op' cf' g' c'.
            relax n current a (op, cf, g, c) = Inr (op', cf', g', c') \<and> op' \<noteq> op \<longrightarrow>
            (\<exists>nb f t. op' = op @ [(f, nb)] \<and> g' nb = Some t \<and>
               (case g nb of None \<Rightarrow> True | Some old \<Rightarrow> t < old))"
    using relax_push by blast
  from 1 2 3 show ?thesis by (intro conjI)
qed

theorem search_terminates_witness:
  "valid_state 2 [2, 1, 3, 0] \<and> (0::nat) < 2 \<and> \<not> is_solvable [2, 1, 3, 0] \<and>
   (\<exists>st r. main_loop 2 (initial_engine 2 [2, 1, 3, 0]) = Some (Inr st) \<and>
            bidirectional_a_star 2 [2, 1, 3, 0] = Some (Inr (r, nodes_evaluated st))) \<and>
   bidirectional_a_star 2 [2, 1, 3, 0] = Some (Inr (None, 22))"
proof -
  have v: "valid_state 2 [2, 1, 3, 0]" by (rule valid_examples)
  have u: "\<not> is_solvable [2, 1, 3, 0]" by code_simp
  from search_terminates[OF v] have
    "\<exists>st r. main_loop 2 (initial_engine 2 [2, 1, 3, 0]) = Some (Inr st) \<and>
            bidirectional_a_star 2 [2, 1, 3, 0] = Some (Inr (r, nodes_evaluated st))"
    by auto
  with v u eval_unsolvable show ?thesis by simp
qed

text \<open>
  C8. Started on the goal state itself, the search returns the path that consists of the
  goal state alone, so the number of moves, the length of the path minus one, is zero.
\<close>

theorem search_from_goal:
  assumes "0 < n"
  shows "\<exists>c. bidirectional_a_star n (goal_state n) = Some (Inr (Some [goal_state n], c)) \<and>
             length [goal_state n] - 1 = 0"
  using goal_search[OF assms] by simp

theorem search_from_goal_witness:
  "(0::nat) < 2 \<and> bidirectional_a_star 2 [1, 2, 3, 0] = Some (Inr (Some [[1, 2, 3, 0]], 2))"
proof -
  have e: "bidirectional_a_star 2 [1, 2, 3, 0] = Some (Inr (Some [[1, 2, 3, 0]], 2))" by code_simp
  from search_from_goal[of 2] e show ?thesis by simp
qed

text \<open>
  C9. The search is deterministic. A run is any execution of the search in which a pop from
  a frontier returns an entry that no entry of the frontier is less than, whatever the
  layout of the heap before and after it (\<open>search_run\<close>). For a well-formed start state on
  a board whose cells fit 64-bit integers, and a second start state with the same cells:
  there is a run on each of them, and it returns what \<open>bidirectional_a_star\<close> returns; and
  any run on the first and any run on the second return the same path and the same count of
  evaluated nodes. The reason is that entries are ordered by priority and then by the bytes
  of the key, and that the keys of a frontier are well-formed states, which differ in their
  bytes: the least entry of a frontier is unique. The moves of a state are enumerated in the
  fixed order up, down, left, right: the list of actions is this list of four swaps of the
  blank at \<open>(x, y)\<close>, without those that leave the board.
\<close>

theorem search_deterministic:
  assumes "valid_state n s1" "0 < n" "n * n \<le> 2 ^ 63"
    "length s2 = length s1" "\<forall>i<length s1. s2 ! i = s1 ! i"
  shows "(\<exists>r. search_run n s1 r \<and> search_run n s2 r \<and>
              bidirectional_a_star n s1 = Some (Inr r) \<and>
              bidirectional_a_star n s2 = Some (Inr r)) \<and>
         (\<forall>r1 r2. search_run n s1 r1 \<longrightarrow> search_run n s2 r2 \<longrightarrow> r1 = r2) \<and>
         (\<exists>x y. x < n \<and> y < n \<and> s1 ! (x * n + y) = 0 \<and>
            available_actions n s1 =
              Inr (filter (\<lambda>a. adjacent n (pos1 a) (pos2 a))
                     [Action (x, y) (x - 1, y), Action (x, y) (x + 1, y),
                      Action (x, y) (x, y - 1), Action (x, y) (x, y + 1)]))"
proof -
  have eq: "s2 = s1" using assms(4,5) by (simp add: nth_equalityI)
  from bidirectional_a_star_reachable[OF assms(1,2)] obtain r where
    r: "bidirectional_a_star n s1 = Some (Inr r)" by auto
  have run: "search_run n s1 r" by (rule search_run_exists[OF assms(1,2) r])
  have ex: "\<exists>r. search_run n s1 r \<and> search_run n s2 r \<and>
              bidirectional_a_star n s1 = Some (Inr r) \<and>
              bidirectional_a_star n s2 = Some (Inr r)"
    unfolding eq using run r by (intro exI[of _ r]) simp
  have un: "\<forall>r1 r2. search_run n s1 r1 \<longrightarrow> search_run n s2 r2 \<longrightarrow> r1 = r2"
  proof (intro allI impI)
    fix r1 r2 assume a: "search_run n s1 r1" "search_run n s2 r2"
    have 1: "bidirectional_a_star n s1 = Some (Inr r1)"
      by (rule search_run_unique[OF assms(1,2,3) a(1)])
    have 2: "bidirectional_a_star n s1 = Some (Inr r2)"
      using search_run_unique[OF assms(1,2,3)] a(2) unfolding eq by simp
    from 1 2 show "r1 = r2" by simp
  qed
  from ex un available_actions_order[OF assms(1,2)] show ?thesis by (intro conjI)
qed

theorem search_deterministic_witness:
  "valid_state 2 [1, 0, 3, 2] \<and> (0::nat) < 2 \<and> (2::nat) * 2 \<le> 2 ^ 63 \<and>
   search_run 2 [1, 0, 3, 2] (Some [[1, 0, 3, 2], [1, 2, 3, 0]], 4) \<and>
   search_run 2 ([1, 0] @ [3, 2]) (Some [[1, 0, 3, 2], [1, 2, 3, 0]], 4) \<and>
   bidirectional_a_star 2 ([1, 0] @ [3, 2]) = Some (Inr (Some [[1, 0, 3, 2], [1, 2, 3, 0]], 4)) \<and>
   (\<exists>st1 st2. forward_half 2 (initial_engine 2 [1, 0, 3, 2]) False st1 \<and>
      forward_half 2 (initial_engine 2 [1, 0, 3, 2]) False st2 \<and>
      open_forward st1 \<noteq> open_forward st2)"
proof -
  have v: "valid_state 2 [1, 0, 3, 2]" by (rule valid_examples)
  have z: "(0::nat) < 2" by simp
  have b: "(2::nat) * 2 \<le> 2 ^ 63" by simp
  have l: "length ([1, 0] @ [3, 2 :: int]) = length [1, 0, 3, 2 :: int]" by simp
  have c: "\<forall>i<length [1, 0, 3, 2 :: int]. ([1, 0] @ [3, 2]) ! i = [1, 0, 3, 2 :: int] ! i" by simp
  have r1: "search_run 2 [1, 0, 3, 2] (Some [[1, 0, 3, 2], [1, 2, 3, 0]], 4)"
    by (rule search_run_exists[OF v z eval_one_move])
  note d = search_deterministic[OF v z b l c]
  from d have "\<exists>r. search_run 2 [1, 0, 3, 2] r \<and> search_run 2 ([1, 0] @ [3, 2]) r \<and>
      bidirectional_a_star 2 [1, 0, 3, 2] = Some (Inr r) \<and>
      bidirectional_a_star 2 ([1, 0] @ [3, 2]) = Some (Inr r)"
    by (rule conjunct1)
  then obtain r where
    r: "search_run 2 ([1, 0] @ [3, 2]) r" "bidirectional_a_star 2 ([1, 0] @ [3, 2]) = Some (Inr r)"
    by (elim exE conjE)
  from d have un: "\<forall>r1 r2. search_run 2 [1, 0, 3, 2] r1 \<longrightarrow>
      search_run 2 ([1, 0] @ [3, 2]) r2 \<longrightarrow> r1 = r2"
    by (rule conjunct1[OF conjunct2])
  have e: "r = (Some [[1, 0, 3, 2], [1, 2, 3, 0]], 4)"
    by (rule un[rule_format, OF r1 r(1), symmetric])
  from forward_half_two_layouts obtain st1 where
    h: "forward_half 2 (initial_engine 2 [1, 0, 3, 2]) False st1"
       "forward_half 2 (initial_engine 2 [1, 0, 3, 2]) False
          (st1\<lparr>open_forward := rev (open_forward st1)\<rparr>)"
       "rev (open_forward st1) \<noteq> open_forward st1"
    by auto
  have t: "\<exists>st1 st2. forward_half 2 (initial_engine 2 [1, 0, 3, 2]) False st1 \<and>
      forward_half 2 (initial_engine 2 [1, 0, 3, 2]) False st2 \<and>
      open_forward st1 \<noteq> open_forward st2"
    by (rule exI[of _ st1], rule exI[of _ "st1\<lparr>open_forward := rev (open_forward st1)\<rparr>"])
       (use h in simp)
  from v z b r1 r[unfolded e] t show ?thesis by (intro conjI)
qed

text \<open>
  C2. On the board of dimension 4 the state below is reached from the goal state by two
  legal moves (blank up, blank left), so it is solvable; \<open>is_solvable\<close> counts three
  inversions in it and returns false. The function tests the parity of the inversion count
  alone, for every board size.
\<close>

theorem is_solvable_rejects_reachable_state:
  "legal_move 4 (goal_state 4) [1, 2, 3, 4, 5, 6, 7, 8, 9, 10, 11, 0, 13, 14, 15, 12] \<and>
   legal_move 4 [1, 2, 3, 4, 5, 6, 7, 8, 9, 10, 11, 0, 13, 14, 15, 12]
                [1, 2, 3, 4, 5, 6, 7, 8, 9, 10, 0, 11, 13, 14, 15, 12] \<and>
   inversions [1, 2, 3, 4, 5, 6, 7, 8, 9, 10, 0, 11, 13, 14, 15, 12] = 3 \<and>
   is_solvable [1, 2, 3, 4, 5, 6, 7, 8, 9, 10, 0, 11, 13, 14, 15, 12] = False"
  by code_simp

text \<open>
  C10. In every engine state that the loop reaches from a well-formed start state (at the
  head of the loop, between its two halves, and after it), each frontier entry's state is a
  key of that direction's score map, the predecessor map has the same keys as the score map,
  and the root's predecessor is \<open>None\<close>. So neither half of the loop body raises, and from
  every key the walk along the predecessors returns, stays inside the keys and ends at the
  root of its direction; a meeting state is a key of both predecessor maps.
\<close>

theorem keys_always_present:
  assumes "valid_state n start" "0 < n" "reachable n start ph st"
  shows "(\<forall>e \<in> set (open_forward st). snd e \<in> dom (g_score_forward st)) \<and>
         (\<forall>e \<in> set (open_backward st). snd e \<in> dom (g_score_backward st)) \<and>
         dom (came_from_forward st) = dom (g_score_forward st) \<and>
         dom (came_from_backward st) = dom (g_score_backward st) \<and>
         came_from_forward st start = Some None \<and>
         came_from_backward st (goal_state n) = Some None \<and>
         (ph = Head \<and> open_forward st \<noteq> [] \<longrightarrow> (\<exists>r. forward_step n st = Inr r)) \<and>
         (ph = Mid \<longrightarrow> (\<exists>r. backward_step n st = Inr r)) \<and>
         (\<forall>k \<in> dom (came_from_forward st).
            \<exists>p. walk (came_from_forward st) (Some k) [] = Some p \<and> last p = start \<and>
                set p \<subseteq> dom (came_from_forward st)) \<and>
         (\<forall>k \<in> dom (came_from_backward st).
            \<exists>p. walk (came_from_backward st) (Some k) [] = Some p \<and> last p = goal_state n \<and>
                set p \<subseteq> dom (came_from_backward st)) \<and>
         (\<forall>m. meeting_node st = Some m \<longrightarrow>
            m \<in> dom (came_from_forward st) \<and> m \<in> dom (came_from_backward st))"
proof -
  from reachable_inv[OF assms(3,1,2)] have inv: "engine_inv n start st"
    and nm: "ph \<noteq> Done \<longrightarrow> meeting_node st = None"
    and mid: "ph = Mid \<longrightarrow> open_backward st \<noteq> []" by simp_all
  from inv have fi: "dir_inv n start (open_forward st) (came_from_forward st) (g_score_forward st)"
    and bi: "dir_inv n (goal_state n) (open_backward st) (came_from_backward st) (g_score_backward st)"
    and ef: "explored_forward st \<subseteq> dom (g_score_forward st)"
    and eb: "explored_backward st \<subseteq> dom (g_score_backward st)"
    and mm: "\<forall>m. meeting_node st = Some m \<longrightarrow> m \<in> explored_forward st \<and> m \<in> explored_backward st"
    by (simp_all add: engine_inv_def)
  note F = dir_invD[OF fi] and B = dir_invD[OF bi]
  have 1: "\<forall>e \<in> set (open_forward st). snd e \<in> dom (g_score_forward st)" using F(4) by blast
  have 2: "\<forall>e \<in> set (open_backward st). snd e \<in> dom (g_score_backward st)" using B(4) by blast
  have 7: "ph = Head \<and> open_forward st \<noteq> [] \<longrightarrow> (\<exists>r. forward_step n st = Inr r)"
  proof
    assume a: "ph = Head \<and> open_forward st \<noteq> []"
    with nm have "meeting_node st = None" by simp
    from forward_step_total[OF inv this] a show "\<exists>r. forward_step n st = Inr r" by blast
  qed
  have 8: "ph = Mid \<longrightarrow> (\<exists>r. backward_step n st = Inr r)"
  proof
    assume a: "ph = Mid"
    with nm mid have "meeting_node st = None" "open_backward st \<noteq> []" by simp_all
    from backward_step_total[OF inv this] show "\<exists>r. backward_step n st = Inr r" by blast
  qed
  have 9: "\<forall>k \<in> dom (came_from_forward st).
            \<exists>p. walk (came_from_forward st) (Some k) [] = Some p \<and> last p = start \<and>
                set p \<subseteq> dom (came_from_forward st)"
  proof
    fix k assume "k \<in> dom (came_from_forward st)"
    then obtain gk where "g_score_forward st k = Some gk" using F(2) by auto
    from walk_total[OF fi this, of "[]"] show "\<exists>p. walk (came_from_forward st) (Some k) [] = Some p \<and>
        last p = start \<and> set p \<subseteq> dom (came_from_forward st)" using F(2) by auto
  qed
  have 10: "\<forall>k \<in> dom (came_from_backward st).
            \<exists>p. walk (came_from_backward st) (Some k) [] = Some p \<and> last p = goal_state n \<and>
                set p \<subseteq> dom (came_from_backward st)"
  proof
    fix k assume "k \<in> dom (came_from_backward st)"
    then obtain gk where "g_score_backward st k = Some gk" using B(2) by auto
    from walk_total[OF bi this, of "[]"] show "\<exists>p. walk (came_from_backward st) (Some k) [] = Some p \<and>
        last p = goal_state n \<and> set p \<subseteq> dom (came_from_backward st)" using B(2) by auto
  qed
  have 11: "\<forall>m. meeting_node st = Some m \<longrightarrow>
            m \<in> dom (came_from_forward st) \<and> m \<in> dom (came_from_backward st)"
    using mm ef eb F(2) B(2) by blast
  from 1 2 F(2) B(2) F(6) B(6) 7 8 9 10 11 show ?thesis by (intro conjI)
qed

theorem keys_always_present_witness:
  "valid_state 2 [1, 0, 3, 2] \<and> (0::nat) < 2 \<and>
   reachable 2 [1, 0, 3, 2] Head (initial_engine 2 [1, 0, 3, 2]) \<and>
   open_forward (initial_engine 2 [1, 0, 3, 2]) \<noteq> [] \<and>
   (\<exists>r. forward_step 2 (initial_engine 2 [1, 0, 3, 2]) = Inr r) \<and>
   came_from_forward (initial_engine 2 [1, 0, 3, 2]) [1, 0, 3, 2] = Some None"
proof -
  have v: "valid_state 2 [1, 0, 3, 2]" by (rule valid_examples)
  have z: "(0::nat) < 2" by simp
  have r: "reachable 2 [1, 0, 3, 2] Head (initial_engine 2 [1, 0, 3, 2])" by (rule reachable_init)
  have ne: "open_forward (initial_engine 2 [1, 0, 3, 2]) \<noteq> []" by (simp add: initial_engine_fields)
  from keys_always_present[OF v z r] ne have
    "(\<exists>r. forward_step 2 (initial_engine 2 [1, 0, 3, 2]) = Inr r) \<and>
     came_from_forward (initial_engine 2 [1, 0, 3, 2]) [1, 0, 3, 2] = Some None" by simp
  with v z r ne show ?thesis by (intro conjI) simp_all
qed

text \<open>
  C3. An entry is stale when its priority differs from the current score of its state plus
  the state's Manhattan distance. The source has no test for it: a popped entry always goes
  through the same statements. For every engine state that the loop reaches from a
  well-formed start state, these statements have no effect when the popped entry is stale:
  the half of the loop body that popped it (the forward half at the head of the loop, the
  backward half after the forward half) returns without a break the engine state it was
  given, with the entry taken out of the frontier and nothing else changed (no relaxation, no
  new explored state, no meeting state), and the loop goes on.
\<close>

theorem stale_entry_is_dropped:
  assumes "valid_state n start" "0 < n"
    "reachable n start (if forward then Head else Mid) st"
    "heappop (if forward then open_forward st else open_backward st) = Inr (e, rest)"
    "stale n (if forward then g_score_forward st else g_score_backward st) e"
  shows "(if forward then forward_step n st else backward_step n st) =
           Inr (False, if forward then st\<lparr>open_forward := rest\<rparr> else st\<lparr>open_backward := rest\<rparr>)"
proof -
  from reachable_inv[OF assms(3,1,2)] have inv: "engine_inv n start st" by simp
  from reachable_lazy[OF assms(3,1,2)] have lz: "lazy_engine n st" by (simp split: if_splits)
  show ?thesis
  proof (cases forward)
    case True
    with assms(4,5) forward_stale_drop[OF inv lz, of e rest] show ?thesis by simp
  next
    case False
    with assms(4,5) backward_stale_drop[OF inv lz, of e rest] show ?thesis by simp
  qed
qed

theorem stale_entry_is_dropped_witness:
  "\<exists>st. valid_state 3 [0, 4, 3, 2, 1, 6, 7, 8, 5] \<and> (0::nat) < 3 \<and>
         after_iterations 3 12 (initial_engine 3 [0, 4, 3, 2, 1, 6, 7, 8, 5]) = Some st \<and>
         reachable 3 [0, 4, 3, 2, 1, 6, 7, 8, 5] Head st \<and>
         heappop (open_forward st) =
           Inr ((10, [1, 0, 3, 4, 2, 6, 7, 8, 5]),
                remove1 (10, [1, 0, 3, 4, 2, 6, 7, 8, 5]) (open_forward st)) \<and>
         g_score_forward st [1, 0, 3, 4, 2, 6, 7, 8, 5] = Some 5 \<and>
         manhattan_distance 3 [1, 0, 3, 4, 2, 6, 7, 8, 5] = 3 \<and>
         stale 3 (g_score_forward st) (10, [1, 0, 3, 4, 2, 6, 7, 8, 5]) \<and>
         forward_step 3 st =
           Inr (False, st\<lparr>open_forward := remove1 (10, [1, 0, 3, 4, 2, 6, 7, 8, 5]) (open_forward st)\<rparr>)"
proof -
  let ?s = "[0, 4, 3, 2, 1, 6, 7, 8, 5] :: state"
  let ?k = "[1, 0, 3, 4, 2, 6, 7, 8, 5] :: state"
  have v: "valid_state 3 ?s" by (rule valid_example_3)
  have z: "(0::nat) < 3" by simp
  from eval_stale_pop obtain st where
    st: "after_iterations 3 12 (initial_engine 3 ?s) = Some st"
    and pop: "heappop (open_forward st) = Inr ((10, ?k), remove1 (10, ?k) (open_forward st))"
    and g: "g_score_forward st ?k = Some 5"
    by (auto split: option.splits)
  have r: "reachable 3 ?s Head st" by (rule after_iterations_reachable[OF st reachable_init])
  have s: "stale 3 (g_score_forward st) (10, ?k)"
    using g eval_stale_distance by (simp add: stale_def)
  from stale_entry_is_dropped[of 3 ?s True st "(10, ?k)" "remove1 (10, ?k) (open_forward st)"]
    v z r pop s
  have d: "forward_step 3 st = Inr (False, st\<lparr>open_forward := remove1 (10, ?k) (open_forward st)\<rparr>)"
    by simp
  from v z st r pop g eval_stale_distance s d show ?thesis by (intro exI[of _ st] conjI)
qed

text \<open>
  C1 as the spec words it: the priority pushed in the backward step would use the Manhattan
  distance from the neighbor to the start state, where the distance to a target sums, over the
  tiles of the state, the offsets between a tile's position and its position in the target
  (\<open>spec_manhattan_distance\<close>, after section 4.2 of the spec). In the search from the
  start state \<open>[1, 0, 3, 2]\<close> the first backward step relaxes this very state from the goal
  with tentative score 1 and pushes it with priority 2, while its distance to the start
  state is 0.
\<close>

theorem backward_priority_counterexample:
  "\<not> isl (iteration 2 (initial_engine 2 [1, 0, 3, 2])) \<and>
   open_backward (snd (projr (iteration 2 (initial_engine 2 [1, 0, 3, 2])))) =
     [(2, [1, 0, 3, 2]), (2, [1, 2, 0, 3])] \<and>
   g_score_backward (snd (projr (iteration 2 (initial_engine 2 [1, 0, 3, 2])))) [1, 0, 3, 2] = Some 1 \<and>
   spec_manhattan_distance 2 [1, 0, 3, 2] [1, 0, 3, 2] = 0 \<and>
   (2::int) \<noteq> int 1 + spec_manhattan_distance 2 [1, 0, 3, 2] [1, 0, 3, 2]"
  by code_simp

text \<open>
  C1 as the code has it: every entry that a backward step pushes is a state one legal move
  from the popped state, and its priority is the popped state's score plus one plus
  \<open>manhattan_distance\<close> of the pushed state, the distance to the goal arrangement, which is
  the heuristic of the forward step as well.
\<close>

theorem backward_priority_is_distance_to_goal:
  assumes "heappop (open_backward st) = Inr ((f, current), rest)"
    "g_score_backward st current = Some g_current"
    "backward_step n st = Inr (broke, st')"
  shows "\<exists>pushed. open_backward st' = rest @ pushed \<and>
           (\<forall>e \<in> set pushed. fst e = int (g_current + 1) + manhattan_distance n (snd e) \<and>
                               legal_move n current (snd e))"
  using assms by (rule backward_step_pushed)

theorem backward_priority_is_distance_to_goal_witness:
  "\<exists>st1 st2. forward_step 2 (initial_engine 2 [1, 0, 3, 2]) = Inr (False, st1) \<and>
     heappop (open_backward st1) = Inr ((0, [1, 2, 3, 0]), []) \<and>
     g_score_backward st1 [1, 2, 3, 0] = Some 0 \<and>
     backward_step 2 st1 = Inr (False, st2) \<and>
     open_backward st2 = [(2, [1, 0, 3, 2]), (2, [1, 2, 0, 3])] \<and>
     (\<exists>pushed. open_backward st2 = [] @ pushed \<and>
        (\<forall>e \<in> set pushed. fst e = int (0 + 1) + manhattan_distance 2 (snd e) \<and>
                            legal_move 2 [1, 2, 3, 0] (snd e)))"
proof -
  obtain b1 st1 where f0: "forward_step 2 (initial_engine 2 [1, 0, 3, 2]) = Inr (b1, st1)"
    using eval_first_iteration by (cases "forward_step 2 (initial_engine 2 [1, 0, 3, 2])") auto
  with eval_first_iteration have b1: "\<not> b1"
    and pop: "heappop (open_backward st1) = Inr ((0, [1, 2, 3, 0]), [])"
    and g: "g_score_backward st1 [1, 2, 3, 0] = Some 0"
    and e2: "case backward_step 2 st1 of
               Inl e \<Rightarrow> False
             | Inr (b2, st2) \<Rightarrow> \<not> b2 \<and> open_backward st2 = [(2, [1, 0, 3, 2]), (2, [1, 2, 0, 3])]"
    by simp_all
  obtain b2 st2 where b0: "backward_step 2 st1 = Inr (b2, st2)"
    using e2 by (cases "backward_step 2 st1") auto
  with e2 have b2: "\<not> b2" and fr: "open_backward st2 = [(2, [1, 0, 3, 2]), (2, [1, 2, 0, 3])]"
    by simp_all
  have f: "forward_step 2 (initial_engine 2 [1, 0, 3, 2]) = Inr (False, st1)" using f0 b1 by simp
  have b: "backward_step 2 st1 = Inr (False, st2)" using b0 b2 by simp
  note c = backward_priority_is_distance_to_goal[OF pop g b]
  from f pop g b fr c show ?thesis by (intro exI[of _ st1] exI[of _ st2] conjI)
qed

end
